theory Spec2Isabelle
  imports Complex_Main "HOL-Library.Extended_Nat"
begin

section \<open>Data model (types.ts)\<close>

text \<open>
  The enum \<open>CellType\<close>: \<open>EMPTY\<close> and \<open>WALL\<close> are the same value 0, as are
  \<open>ENTRY\<close>/\<open>CAR_ENTRY\<close>, \<open>EXIT\<close>/\<open>CAR_EXIT\<close> and \<open>MALL\<close>/\<open>MALL_ENTRY\<close>; one
  constructor stands for each value.
\<close>

datatype CellType = WALL | PATH | PARKING | ENTRY | EXIT | MALL | DISPLAY
  | ZONE_A | ZONE_B | ZONE_C | ZONE_D

datatype SpotType = STANDARD | COMPACT | EV | DISABLED | RESERVED

datatype WallType = NONE | SOLID

datatype EdgeName = North | South | East | West

text \<open>\<open>GridEdges\<close>: every side is optional.\<close>

record GridEdges =
  north :: "WallType option"
  south :: "WallType option"
  east :: "WallType option"
  west :: "WallType option"

text \<open>A \<open>Point\<close> \<open>{x, y}\<close> is the pair \<open>(x, y)\<close>; coordinates are integers.\<close>

type_synonym Point = "int \<times> int"

text \<open>
  \<open>GridCell\<close>, with the fields the engine reads. The optional flag \<open>hasFlow\<close> is only
  ever tested for truthiness, so an absent flag is \<open>False\<close>. The other optional fields
  keep their absence (\<open>None\<close>). \<open>rotation\<close> is a number of degrees.
\<close>

record GridCell =
  type :: CellType
  rotation :: int
  spotType :: "SpotType option"
  subMask :: "int list list option"
  edges :: "GridEdges option"
  hasFlow :: bool

type_synonym Grid = "GridCell list list"

text \<open>The only exception the engine can raise: a property read on \<open>undefined\<close>.\<close>

datatype error = TypeError

section \<open>Array reads\<close>

text \<open>
  \<open>xs[i]\<close> in JavaScript is \<open>undefined\<close> outside \<open>0 \<le> i < length\<close>; \<open>grid[y][x]\<close> is
  \<open>undefined\<close> when the column is missing and raises when the row is. Every use below
  reads a property of the cell next, so both cases end in \<open>TypeError\<close> there.
\<close>

definition js_index :: "'a list \<Rightarrow> int \<Rightarrow> 'a option" where
  "js_index xs i = (if 0 \<le> i \<and> i < int (length xs) then Some (xs ! nat i) else None)"

definition cell_lookup :: "Grid \<Rightarrow> Point \<Rightarrow> GridCell option" where
  "cell_lookup grid p =
     (case js_index grid (snd p) of None \<Rightarrow> None | Some row \<Rightarrow> js_index row (fst p))"

section \<open>Route Finder (simulation.ts, findPath)\<close>

text \<open>One entry of the \<open>directions\<close> table of \<open>findPath\<close>.\<close>

record dirspec =
  dx :: int
  dy :: int
  deg :: int
  edge :: EdgeName
  oppEdge :: EdgeName

definition directions :: "dirspec list" where
  "directions =
     [\<lparr>dx = 0, dy = -1, deg = 0, edge = North, oppEdge = South\<rparr>,
      \<lparr>dx = 1, dy = 0, deg = 90, edge = East, oppEdge = West\<rparr>,
      \<lparr>dx = 0, dy = 1, deg = 180, edge = South, oppEdge = North\<rparr>,
      \<lparr>dx = -1, dy = 0, deg = 270, edge = West, oppEdge = East\<rparr>]"

fun edge_get :: "GridEdges \<Rightarrow> EdgeName \<Rightarrow> WallType option" where
  "edge_get es North = north es"
| "edge_get es South = south es"
| "edge_get es East = east es"
| "edge_get es West = west es"

text \<open>\<open>cell.edges && cell.edges[e] === WallType.SOLID\<close>\<close>

definition edgeSolid :: "GridCell \<Rightarrow> EdgeName \<Rightarrow> bool" where
  "edgeSolid c e = (case edges c of None \<Rightarrow> False | Some es \<Rightarrow> edge_get es e = Some SOLID)"

text \<open>
  Step 4 of the loop body: \<open>solidCount > flatMask.length * 0.5\<close>, written without the
  fraction.
\<close>

definition subMaskBlocked :: "GridCell \<Rightarrow> bool" where
  "subMaskBlocked c =
     (case subMask c of
        None \<Rightarrow> False
      | Some m \<Rightarrow>
          (let flatMask = concat m;
               solidCount = length (filter (\<lambda>v. v = 1) flatMask)
           in 2 * int solidCount > int (length flatMask)))"

text \<open>Step 5 of the loop body: the value of \<open>isWalkable\<close> after the \<open>PATH\<close> override.\<close>

definition isWalkable :: "GridCell \<Rightarrow> Point \<Rightarrow> Point \<Rightarrow> bool \<Rightarrow> bool" where
  "isWalkable nextCell n target strictMode =
     (if type nextCell = PATH then (if strictMode then hasFlow nextCell else True)
      else type nextCell = ENTRY \<or> type nextCell = EXIT
           \<or> (type nextCell = PARKING \<and> n = target))"

text \<open>
  \<open>allowedDegrees\<close>: the rotation of a flowed \<open>PATH\<close> cell, otherwise \<open>null\<close>. The branch
  for a flowless \<open>PATH\<close> cell under strict mode has an empty body in the source.
\<close>

definition allowedDegrees :: "GridCell \<Rightarrow> int option" where
  "allowedDegrees currentCell =
     (if type currentCell = PATH \<and> hasFlow currentCell then Some (rotation currentCell)
      else None)"

text \<open>
  The body of \<open>for (const dir of directions)\<close> up to the test of \<open>isWalkable\<close>:
  \<open>Inr (Some n)\<close> when the neighbour \<open>n\<close> passes every check, \<open>Inr None\<close> when the
  iteration is skipped, \<open>Inl TypeError\<close> when the neighbour is inside \<open>width \<times> height\<close>
  but missing from its row (the first property read on it raises: line 118 under strict
  mode, line 131 otherwise, unless line 128 skipped the iteration before).
\<close>

definition tryMove ::
  "Grid \<Rightarrow> int \<Rightarrow> int \<Rightarrow> Point \<Rightarrow> bool \<Rightarrow> GridCell \<Rightarrow> Point \<Rightarrow> dirspec \<Rightarrow> error + Point option"
where
  "tryMove grid width height target strictMode currentCell pos dir =
     (if allowedDegrees currentCell \<noteq> None \<and> allowedDegrees currentCell \<noteq> Some (deg dir)
      then Inr None
      else
        let nx = fst pos + dx dir; ny = snd pos + dy dir in
        if 0 \<le> nx \<and> nx < width \<and> 0 \<le> ny \<and> ny < height then
          (case cell_lookup grid (nx, ny) of
             None \<Rightarrow>
               (if strictMode then Inl TypeError
                else if edgeSolid currentCell (edge dir) then Inr None
                else Inl TypeError)
           | Some nextCell \<Rightarrow>
               if strictMode \<and> type nextCell = PATH \<and> hasFlow nextCell
                  \<and> \<bar>rotation nextCell - deg dir\<bar> = 180 then Inr None
               else if edgeSolid currentCell (edge dir) then Inr None
               else if edgeSolid nextCell (oppEdge dir) then Inr None
               else if subMaskBlocked nextCell then Inr None
               else if isWalkable nextCell (nx, ny) target strictMode then Inr (Some (nx, ny))
               else Inr None)
        else Inr None)"

text \<open>
  The \<open>for\<close> loop over the directions, threading the queue and the visited set. The
  set of keys \<open>"x,y"\<close> is a set of points.
\<close>

type_synonym bfs_queue = "(Point \<times> Point list) list"

fun expand ::
  "Grid \<Rightarrow> int \<Rightarrow> int \<Rightarrow> Point \<Rightarrow> bool \<Rightarrow> GridCell \<Rightarrow> Point \<Rightarrow> Point list \<Rightarrow> dirspec list
   \<Rightarrow> bfs_queue \<times> Point set \<Rightarrow> error + (bfs_queue \<times> Point set)"
where
  "expand grid width height target strictMode currentCell pos path [] st = Inr st"
| "expand grid width height target strictMode currentCell pos path (dir # dirs) (queue, visited) =
     (case tryMove grid width height target strictMode currentCell pos dir of
        Inl e \<Rightarrow> Inl e
      | Inr None \<Rightarrow>
          expand grid width height target strictMode currentCell pos path dirs (queue, visited)
      | Inr (Some n) \<Rightarrow>
          if n \<in> visited
          then expand grid width height target strictMode currentCell pos path dirs (queue, visited)
          else expand grid width height target strictMode currentCell pos path dirs
                 (queue @ [(n, path @ [n])], insert n visited))"

text \<open>The cells \<open>0 \<le> x < width\<close>, \<open>0 \<le> y < height\<close>.\<close>

definition box :: "int \<Rightarrow> int \<Rightarrow> Point set" where
  "box width height = {0..<width} \<times> {0..<height}"

text \<open>The \<open>while (queue.length > 0)\<close> loop of \<open>findPath\<close>.\<close>

function bfsLoop ::
  "Grid \<Rightarrow> int \<Rightarrow> int \<Rightarrow> Point \<Rightarrow> bool \<Rightarrow> bfs_queue \<Rightarrow> Point set \<Rightarrow> error + Point list"
where
  "bfsLoop grid width height target strictMode [] visited = Inr []"
| "bfsLoop grid width height target strictMode ((pos, path) # queue) visited =
     (if pos = target then Inr path
      else
        (case cell_lookup grid pos of
           None \<Rightarrow> Inl TypeError
         | Some currentCell \<Rightarrow>
             (case expand grid width height target strictMode currentCell pos path directions
                     (queue, visited) of
                Inl e \<Rightarrow> Inl e
              | Inr (queue', visited') \<Rightarrow>
                  bfsLoop grid width height target strictMode queue' visited')))"
  by pat_completeness auto

lemma tryMove_in_box:
  "tryMove grid width height target strictMode currentCell pos dir = Inr (Some n)
   \<Longrightarrow> n \<in> box width height"
  by (auto simp: tryMove_def box_def Let_def split: if_splits option.splits)

lemma finite_box: "finite (box width height)"
  by (simp add: box_def)

lemma expand_measure:
  "expand grid width height target strictMode currentCell pos path dirs (queue, visited)
     = Inr (queue', visited')
   \<Longrightarrow> 2 * card (box width height - visited') + length queue'
       \<le> 2 * card (box width height - visited) + length queue"
proof (induction dirs arbitrary: queue visited)
  case Nil
  then show ?case by simp
next
  case (Cons dir dirs)
  show ?case
  proof (cases "tryMove grid width height target strictMode currentCell pos dir")
    case (Inl e)
    with Cons.prems show ?thesis by simp
  next
    case (Inr r)
    show ?thesis
    proof (cases r)
      case None
      with Inr Cons show ?thesis by simp
    next
      case (Some n)
      show ?thesis
      proof (cases "n \<in> visited")
        case True
        with Inr Some Cons show ?thesis by simp
      next
        case False
        from Inr Some have nb: "n \<in> box width height"
          by (auto dest: tryMove_in_box)
        from Inr Some False Cons.prems
        have "expand grid width height target strictMode currentCell pos path dirs
                (queue @ [(n, path @ [n])], insert n visited) = Inr (queue', visited')"
          by simp
        from Cons.IH [OF this]
        have le: "2 * card (box width height - visited') + length queue'
                 \<le> 2 * card (box width height - insert n visited) + (length queue + 1)"
          by simp
        have "box width height - insert n visited = (box width height - visited) - {n}"
          by blast
        moreover have "n \<in> box width height - visited"
          using nb False by simp
        ultimately have "card (box width height - insert n visited)
                          = card (box width height - visited) - 1"
          and "card (box width height - visited) > 0"
          using finite_box [of width height]
          by (auto simp: card_gt_0_iff)
        with le show ?thesis by linarith
      qed
    qed
  qed
qed

termination bfsLoop
proof (relation "measure (\<lambda>(grid, width, height, target, strictMode, queue, visited).
                   2 * card (box width height - visited) + length queue)", goal_cases)
  case 1
  show ?case by simp
next
  case (2 grid width height target strictMode pos path queue visited currentCell r queue' visited')
  then have "expand grid width height target strictMode currentCell pos path directions
               (queue, visited) = Inr (queue', visited')"
    by simp
  from expand_measure [OF this] show ?case by simp
qed

text \<open>
  \<open>findPath\<close>. Reading \<open>grid[0].length\<close> raises on a grid without rows. The default
  \<open>strictMode = true\<close> is the caller's to pass.
\<close>

definition findPath :: "Grid \<Rightarrow> Point \<Rightarrow> Point \<Rightarrow> bool \<Rightarrow> error + Point list" where
  "findPath grid start target strictMode =
     (case grid of
        [] \<Rightarrow> Inl TypeError
      | row0 # _ \<Rightarrow>
          bfsLoop grid (int (length row0)) (int (length grid)) target strictMode
            [(start, [start])] {start})"

section \<open>Distance Field Builder (simulation.ts, generateMallDistanceMap)\<close>

text \<open>
  An entry of \<open>distMap\<close> is a number, \<open>Infinity\<close> included (\<open>enat\<close>), or a hole
  (\<open>None\<close>, read as \<open>undefined\<close>): an assignment past the end of a row extends the
  row. A comparison with \<open>undefined\<close> or with \<open>undefined + 1\<close> is false.
\<close>

type_synonym DistMap = "enat option list list"

text \<open>\<open>row[i] = v\<close> for an index \<open>i \<ge> 0\<close>.\<close>

definition js_set :: "'a option list \<Rightarrow> int \<Rightarrow> 'a \<Rightarrow> 'a option list" where
  "js_set row i v =
     (if i < int (length row) then row[nat i := Some v]
      else row @ replicate (nat i - length row) None @ [Some v])"

text \<open>The seeding scan \<open>grid.forEach((row, y) => row.forEach((cell, x) => ...))\<close>.\<close>

fun seedRow :: "GridCell list \<Rightarrow> int \<Rightarrow> int \<Rightarrow> DistMap \<times> Point list \<Rightarrow> DistMap \<times> Point list" where
  "seedRow [] x y st = st"
| "seedRow (cell # row) x y (distMap, queue) =
     seedRow row (x + 1) y
       (if type cell = MALL
        then (distMap[nat y := js_set (distMap ! nat y) x 0], queue @ [(x, y)])
        else (distMap, queue))"

fun seedGrid :: "Grid \<Rightarrow> int \<Rightarrow> DistMap \<times> Point list \<Rightarrow> DistMap \<times> Point list" where
  "seedGrid [] y st = st"
| "seedGrid (row # rows) y st = seedGrid rows (y + 1) (seedRow row 0 y st)"

text \<open>\<open>distMap[y][x]\<close>: raises when row \<open>y\<close> is missing, \<open>undefined\<close> on a missing entry.\<close>

definition dist_lookup :: "DistMap \<Rightarrow> Point \<Rightarrow> error + enat option" where
  "dist_lookup distMap p =
     (case js_index distMap (snd p) of
        None \<Rightarrow> Inl TypeError
      | Some row \<Rightarrow> Inr (case js_index row (fst p) of None \<Rightarrow> None | Some v \<Rightarrow> v))"

definition mallDirections :: "Point list" where
  "mallDirections = [(0, 1), (0, -1), (1, 0), (-1, 0)]"

text \<open>
  The body of \<open>for (const dir of directions)\<close>: \<open>currentDist\<close> was read before the loop;
  a neighbour inside \<open>width \<times> height\<close> that is missing from its row raises at \<open>cell.type\<close>.
\<close>

definition relax ::
  "Grid \<Rightarrow> int \<Rightarrow> int \<Rightarrow> enat option \<Rightarrow> Point \<Rightarrow> Point \<Rightarrow> DistMap \<times> Point list
   \<Rightarrow> error + (DistMap \<times> Point list)"
where
  "relax grid width height currentDist pos dir st =
     (let nx = fst pos + fst dir; ny = snd pos + snd dir in
      if 0 \<le> nx \<and> nx < width \<and> 0 \<le> ny \<and> ny < height then
        (case cell_lookup grid (nx, ny) of
           None \<Rightarrow> Inl TypeError
         | Some cell \<Rightarrow>
             if type cell = WALL then Inr st
             else
               (case dist_lookup (fst st) (nx, ny) of
                  Inl e \<Rightarrow> Inl e
                | Inr None \<Rightarrow> Inr st
                | Inr (Some d) \<Rightarrow>
                    (case currentDist of
                       None \<Rightarrow> Inr st
                     | Some c \<Rightarrow>
                         if d > c + 1
                         then Inr ((fst st)[nat ny := ((fst st) ! nat ny)[nat nx := Some (c + 1)]],
                                   snd st @ [(nx, ny)])
                         else Inr st)))
      else Inr st)"

fun relaxAll ::
  "Grid \<Rightarrow> int \<Rightarrow> int \<Rightarrow> enat option \<Rightarrow> Point \<Rightarrow> Point list \<Rightarrow> DistMap \<times> Point list
   \<Rightarrow> error + (DistMap \<times> Point list)"
where
  "relaxAll grid width height currentDist pos [] st = Inr st"
| "relaxAll grid width height currentDist pos (dir # dirs) st =
     (case relax grid width height currentDist pos dir st of
        Inl e \<Rightarrow> Inl e
      | Inr st' \<Rightarrow> relaxAll grid width height currentDist pos dirs st')"

text \<open>
  The measure of the \<open>while\<close> loop of \<open>generateMallDistanceMap\<close>: the number of
  \<open>Infinity\<close> entries, then the sum of the finite entries, then the queue length. A
  relaxation lowers the first or keeps it and lowers the second.
\<close>

definition infCount :: "DistMap \<Rightarrow> nat" where
  "infCount distMap = sum_list (map (\<lambda>row. length (filter (\<lambda>v. v = Some \<infinity>) row)) distMap)"

fun finWeight :: "enat option \<Rightarrow> nat" where
  "finWeight (Some (enat k)) = k"
| "finWeight _ = 0"

definition finSum :: "DistMap \<Rightarrow> nat" where
  "finSum distMap = sum_list (map (\<lambda>row. sum_list (map finWeight row)) distMap)"

text \<open>The \<open>while (queue.length > 0)\<close> loop of \<open>generateMallDistanceMap\<close>.\<close>

function mallLoop :: "Grid \<Rightarrow> int \<Rightarrow> int \<Rightarrow> Point list \<Rightarrow> DistMap \<Rightarrow> error + DistMap" where
  "mallLoop grid width height [] distMap = Inr distMap"
| "mallLoop grid width height (pos # queue) distMap =
     (case dist_lookup distMap pos of
        Inl e \<Rightarrow> Inl e
      | Inr currentDist \<Rightarrow>
          (case relaxAll grid width height currentDist pos mallDirections (distMap, queue) of
             Inl e \<Rightarrow> Inl e
           | Inr (distMap', queue') \<Rightarrow> mallLoop grid width height queue' distMap'))"
  by pat_completeness auto

lemma filter_update_count:
  assumes "i < length xs"
  shows "length (filter P (xs[i := v])) + (if P (xs ! i) then 1 else 0)
         = length (filter P xs) + (if P v then 1 else 0)"
  using assms
proof (induction xs arbitrary: i)
  case Nil then show ?case by simp
next
  case (Cons a xs) then show ?case by (cases i) auto
qed

lemma sum_list_map_update:
  fixes f :: "'a \<Rightarrow> nat"
  assumes "i < length xs"
  shows "sum_list (map f (xs[i := v])) + f (xs ! i) = sum_list (map f xs) + f v"
  using assms
proof (induction xs arbitrary: i)
  case Nil then show ?case by simp
next
  case (Cons a xs) then show ?case by (cases i) auto
qed

definition lexLess :: "DistMap \<Rightarrow> DistMap \<Rightarrow> bool" where
  "lexLess a b = (infCount a < infCount b \<or> (infCount a = infCount b \<and> finSum a < finSum b))"

lemma update_lexLess:
  assumes y: "y < length dm" and x: "x < length (dm ! y)"
    and old: "dm ! y ! x = Some d" and gt: "d > c + 1"
  shows "lexLess (dm[y := (dm ! y)[x := Some (c + 1)]]) dm"
proof -
  obtain k where k: "c + 1 = enat k" using gt by (cases "c + 1") auto
  let ?row = "(dm ! y)[x := Some (c + 1)]"
  let ?P = "\<lambda>v. v = Some (\<infinity>::enat)"
  let ?cnt = "\<lambda>row. length (filter ?P row)"
  let ?fs = "\<lambda>row. sum_list (map finWeight row)"
  have c1: "?cnt ?row + (if d = \<infinity> then 1 else 0) = ?cnt (dm ! y)"
    using filter_update_count [OF x, of ?P "Some (c + 1)"] old k by simp
  have s1: "?fs ?row + finWeight (Some d) = ?fs (dm ! y) + k"
    using sum_list_map_update [OF x, of finWeight "Some (c + 1)"] old k by simp
  have C: "infCount (dm[y := ?row]) + ?cnt (dm ! y) = infCount dm + ?cnt ?row"
    unfolding infCount_def using sum_list_map_update [OF y, of ?cnt ?row] by simp
  have S: "finSum (dm[y := ?row]) + ?fs (dm ! y) = finSum dm + ?fs ?row"
    unfolding finSum_def using sum_list_map_update [OF y, of ?fs ?row] by simp
  show ?thesis
  proof (cases d)
    case (enat j)
    with gt k have "k < j" by simp
    with c1 s1 C S enat show ?thesis by (simp add: lexLess_def)
  next
    case infinity
    with c1 C show ?thesis by (simp add: lexLess_def)
  qed
qed

lemma relax_cases:
  assumes "relax grid width height currentDist pos dir (dm, q) = Inr (dm', q')"
  shows "(dm' = dm \<and> q' = q) \<or>
         (\<exists>d c cell. currentDist = Some c
            \<and> (fst pos + fst dir, snd pos + snd dir) \<in> box width height
            \<and> cell_lookup grid (fst pos + fst dir, snd pos + snd dir) = Some cell
            \<and> type cell \<noteq> WALL
            \<and> dist_lookup dm (fst pos + fst dir, snd pos + snd dir) = Inr (Some d)
            \<and> d > c + 1
            \<and> dm' = dm[nat (snd pos + snd dir) :=
                        (dm ! nat (snd pos + snd dir))[nat (fst pos + fst dir) := Some (c + 1)]]
            \<and> q' = q @ [(fst pos + fst dir, snd pos + snd dir)])"
proof -
  let ?n = "(fst pos + fst dir, snd pos + snd dir)"
  show ?thesis
  proof (cases "0 \<le> fst pos + fst dir \<and> fst pos + fst dir < width
                \<and> 0 \<le> snd pos + snd dir \<and> snd pos + snd dir < height")
    case False
    with assms show ?thesis by (simp add: relax_def Let_def)
  next
    case inb: True
    show ?thesis
    proof (cases "cell_lookup grid ?n")
      case None
      with assms inb show ?thesis by (simp add: relax_def box_def Let_def)
    next
      case (Some cell)
      show ?thesis
      proof (cases "type cell = WALL")
        case True
        with assms inb Some show ?thesis by (simp add: relax_def box_def Let_def)
      next
        case nw: False
        show ?thesis
        proof (cases "dist_lookup dm ?n")
          case (Inl e)
          with assms inb Some nw show ?thesis by (simp add: relax_def box_def Let_def)
        next
          case (Inr old)
          show ?thesis
          proof (cases old)
            case None
            with assms inb Some nw Inr show ?thesis by (simp add: relax_def box_def Let_def)
          next
            case oldd: (Some d)
            show ?thesis
            proof (cases currentDist)
              case None
              with assms inb Some nw Inr oldd show ?thesis by (simp add: relax_def box_def Let_def)
            next
              case cur: (Some c)
              show ?thesis
              proof (cases "d > c + 1")
                case False
                with assms inb Some nw Inr oldd cur show ?thesis
                  by (simp add: relax_def box_def Let_def)
              next
                case True
                with assms inb Some nw Inr oldd cur show ?thesis
                  by (simp add: relax_def box_def Let_def)
              qed
            qed
          qed
        qed
      qed
    qed
  qed
qed

lemma dist_lookup_SomeD:
  "dist_lookup dm p = Inr (Some d)
   \<Longrightarrow> nat (snd p) < length dm \<and> nat (fst p) < length (dm ! nat (snd p))
       \<and> dm ! nat (snd p) ! nat (fst p) = Some d \<and> 0 \<le> fst p \<and> 0 \<le> snd p"
  by (auto simp: dist_lookup_def js_index_def split: if_splits option.splits)

lemma relax_measure:
  assumes "relax grid width height currentDist pos dir (dm, q) = Inr (dm', q')"
  shows "(dm' = dm \<and> q' = q) \<or> lexLess dm' dm"
  using relax_cases [OF assms]
proof (elim disjE exE conjE)
  fix d c cell
  assume lk: "dist_lookup dm (fst pos + fst dir, snd pos + snd dir) = Inr (Some d)"
    and gt: "d > c + 1"
    and dm': "dm' = dm[nat (snd pos + snd dir) :=
                        (dm ! nat (snd pos + snd dir))[nat (fst pos + fst dir) := Some (c + 1)]]"
  from dist_lookup_SomeD [OF lk]
  have "nat (snd pos + snd dir) < length dm"
    "nat (fst pos + fst dir) < length (dm ! nat (snd pos + snd dir))"
    "dm ! nat (snd pos + snd dir) ! nat (fst pos + fst dir) = Some d"
    by simp_all
  from update_lexLess [OF this gt] dm' show ?thesis by simp
qed simp

lemma lexLess_trans: "lexLess a b \<Longrightarrow> lexLess b c \<Longrightarrow> lexLess a c"
  by (auto simp: lexLess_def)

lemma relaxAll_measure:
  "relaxAll grid width height currentDist pos dirs (dm, q) = Inr (dm', q')
   \<Longrightarrow> (dm' = dm \<and> q' = q) \<or> lexLess dm' dm"
proof (induction dirs arbitrary: dm q)
  case Nil then show ?case by simp
next
  case (Cons dir dirs)
  from Cons.prems obtain dm1 q1 where
    r: "relax grid width height currentDist pos dir (dm, q) = Inr (dm1, q1)"
    and a: "relaxAll grid width height currentDist pos dirs (dm1, q1) = Inr (dm', q')"
    by (auto split: sum.splits)
  from relax_measure [OF r] Cons.IH [OF a] show ?case
    by (auto intro: lexLess_trans)
qed

termination mallLoop
proof (relation "inv_image (less_than <*lex*> less_than <*lex*> less_than)
        (\<lambda>(grid, width, height, queue, distMap). (infCount distMap, finSum distMap, length queue))",
       goal_cases)
  case 1
  show ?case by (simp add: wf_lex_prod)
next
  case (2 grid width height pos queue distMap currentDist r distMap' queue')
  then have "relaxAll grid width height currentDist pos mallDirections (distMap, queue)
               = Inr (distMap', queue')"
    by simp
  from relaxAll_measure [OF this] show ?case
    by (auto simp: lexLess_def)
qed

text \<open>\<open>generateMallDistanceMap\<close>, with \<open>width = grid[0]?.length || 0\<close>.\<close>

definition generateMallDistanceMap :: "Grid \<Rightarrow> error + DistMap" where
  "generateMallDistanceMap grid =
     (let height = length grid;
          width = (case grid of [] \<Rightarrow> 0 | row0 # _ \<Rightarrow> length row0);
          distMap0 = replicate height (replicate width (Some \<infinity>))
      in case seedGrid grid 0 (distMap0, []) of
           (distMap, queue) \<Rightarrow> mallLoop grid (int width) (int height) queue distMap)"

section \<open>Spot Selector (simulation.ts, findBestSpot)\<close>

text \<open>The compatibility check of \<open>findBestSpot\<close>, on \<open>cell.spotType || STANDARD\<close>.\<close>

definition isCompatible :: "SpotType \<Rightarrow> SpotType \<Rightarrow> bool" where
  "isCompatible carType cellSpotType =
     (if carType = EV then cellSpotType = EV \<or> cellSpotType = STANDARD
      else if carType = DISABLED then cellSpotType = DISABLED
      else cellSpotType = STANDARD \<or> cellSpotType = COMPACT)"

definition cellSpotType :: "GridCell \<Rightarrow> SpotType" where
  "cellSpotType cell = (case spotType cell of None \<Rightarrow> STANDARD | Some t \<Rightarrow> t)"

text \<open>
  The score of line 213 is a floating-point number formed from the distance field, the
  entry point, the driver profile and \<open>Math.random()\<close>. The model takes it as an input,
  one number per candidate cell, so what is proved holds for every outcome of that
  arithmetic and of the random draw. Of the optional distance field only the shape
  matters here: \<open>mallDistanceMap[y][x]\<close> raises when row \<open>y\<close> is missing.
\<close>

fun candidatesRow ::
  "GridCell list \<Rightarrow> int \<Rightarrow> int \<Rightarrow> Point set \<Rightarrow> SpotType \<Rightarrow> DistMap option \<Rightarrow> (Point \<Rightarrow> real)
   \<Rightarrow> (Point \<times> real) list \<Rightarrow> error + (Point \<times> real) list"
where
  "candidatesRow [] x y occupiedSpots carType mallDistanceMap score candidates = Inr candidates"
| "candidatesRow (cell # row) x y occupiedSpots carType mallDistanceMap score candidates =
     (if type cell = PARKING \<and> (x, y) \<notin> occupiedSpots
         \<and> isCompatible carType (cellSpotType cell)
      then
        (case mallDistanceMap of
           None \<Rightarrow>
             candidatesRow row (x + 1) y occupiedSpots carType mallDistanceMap score
               (candidates @ [((x, y), score (x, y))])
         | Some m \<Rightarrow>
             (case js_index m y of
                None \<Rightarrow> Inl TypeError
              | Some _ \<Rightarrow>
                  candidatesRow row (x + 1) y occupiedSpots carType mallDistanceMap score
                    (candidates @ [((x, y), score (x, y))])))
      else candidatesRow row (x + 1) y occupiedSpots carType mallDistanceMap score candidates)"

fun candidatesGrid ::
  "Grid \<Rightarrow> int \<Rightarrow> Point set \<Rightarrow> SpotType \<Rightarrow> DistMap option \<Rightarrow> (Point \<Rightarrow> real)
   \<Rightarrow> (Point \<times> real) list \<Rightarrow> error + (Point \<times> real) list"
where
  "candidatesGrid [] y occupiedSpots carType mallDistanceMap score candidates = Inr candidates"
| "candidatesGrid (row # rows) y occupiedSpots carType mallDistanceMap score candidates =
     (case candidatesRow row 0 y occupiedSpots carType mallDistanceMap score candidates of
        Inl e \<Rightarrow> Inl e
      | Inr candidates' \<Rightarrow>
          candidatesGrid rows (y + 1) occupiedSpots carType mallDistanceMap score candidates')"

text \<open>
  \<open>findBestSpot\<close>: \<open>null\<close> without candidates, otherwise the first candidate after the
  stable sort by ascending score.
\<close>

definition findBestSpot ::
  "Grid \<Rightarrow> Point set \<Rightarrow> SpotType \<Rightarrow> DistMap option \<Rightarrow> (Point \<Rightarrow> real) \<Rightarrow> error + Point option"
where
  "findBestSpot grid occupiedSpots carType mallDistanceMap score =
     (case candidatesGrid grid 0 occupiedSpots carType mallDistanceMap score [] of
        Inl e \<Rightarrow> Inl e
      | Inr candidates \<Rightarrow>
          (case sort_key snd candidates of
             [] \<Rightarrow> Inr None
           | best # _ \<Rightarrow> Inr (Some (fst best))))"

section \<open>Entry and exit cells (simulation.ts)\<close>

fun entriesRow :: "GridCell list \<Rightarrow> int \<Rightarrow> int \<Rightarrow> Point list \<Rightarrow> Point list" where
  "entriesRow [] x y entries = entries"
| "entriesRow (cell # row) x y entries =
     entriesRow row (x + 1) y (if type cell = ENTRY then entries @ [(x, y)] else entries)"

fun entriesGrid :: "Grid \<Rightarrow> int \<Rightarrow> Point list \<Rightarrow> Point list" where
  "entriesGrid [] y entries = entries"
| "entriesGrid (row # rows) y entries = entriesGrid rows (y + 1) (entriesRow row 0 y entries)"

definition getEntryPoints :: "Grid \<Rightarrow> Point list" where
  "getEntryPoints grid = entriesGrid grid 0 []"

text \<open>
  \<open>getExitPoint\<close> scans \<open>x < grid[0].length\<close> in every row; a shorter row gives
  \<open>undefined.type\<close>. The scan is a recursion over the cells still to visit, in row-major
  order.
\<close>

fun exitScan :: "Grid \<Rightarrow> Point list \<Rightarrow> error + Point option" where
  "exitScan grid [] = Inr None"
| "exitScan grid (p # ps) =
     (case cell_lookup grid p of
        None \<Rightarrow> Inl TypeError
      | Some cell \<Rightarrow> if type cell = EXIT then Inr (Some p) else exitScan grid ps)"

definition getExitPoint :: "Grid \<Rightarrow> error + Point option" where
  "getExitPoint grid =
     (case grid of
        [] \<Rightarrow> Inr None
      | row0 # _ \<Rightarrow>
          exitScan grid
            (concat (map (\<lambda>y. map (\<lambda>x. (int x, int y)) [0..<length row0]) [0..<length grid])))"

section \<open>Simulation Clock (App.tsx, the interval callback)\<close>

datatype CarState = entering | parking | parked | exiting

text \<open>
  \<open>Car\<close>, with the fields the tick logic reads or writes; identity, colour, electrical
  current, entry tick and the debug path do not influence it. The field names carry a
  prefix because \<open>type\<close> is already a field of \<open>GridCell\<close>.
\<close>

record Car =
  car_x :: int
  car_y :: int
  car_state :: CarState
  car_target :: "Point option"
  car_parkingTime :: int
  car_type :: SpotType

text \<open>
  The body of \<open>prevCars.forEach\<close> for one car. The result is the car pushed to
  \<open>nextCars\<close> (\<open>None\<close> for the early \<open>return\<close>), the occupied set after the queued
  \<open>setOccupiedSpots\<close> update, and the increment of \<open>stats.totalCars\<close>. The rolled dwell
  time \<open>floor((20 + random * 40) * parkingDurationBias)\<close> is the input \<open>dwell\<close>.
\<close>

definition stepCar ::
  "Grid \<Rightarrow> bool \<Rightarrow> Point option \<Rightarrow> int \<Rightarrow> Car \<Rightarrow> Point set \<Rightarrow> error + (Car option \<times> Point set \<times> nat)"
where
  "stepCar grid strictFlow exit dwell car occupied =
     (if car_state car = entering \<or> car_state car = exiting then
        (case car_target car of
           None \<Rightarrow> Inr (Some car, occupied, 0)
         | Some tgt \<Rightarrow>
             (case findPath grid (car_x car, car_y car) tgt strictFlow of
                Inl e \<Rightarrow> Inl e
              | Inr path \<Rightarrow>
                  if length path > 1
                  then Inr (Some (car\<lparr>car_x := fst (path ! 1), car_y := snd (path ! 1)\<rparr>),
                            occupied, 0)
                  else if car_state car = entering
                  then Inr (Some (car\<lparr>car_state := parking, car_parkingTime := dwell\<rparr>),
                            occupied, 1)
                  else Inr (None, occupied, 0)))
      else if car_state car = parking then
        (let t = car_parkingTime car - 1 in
         if t \<le> 0
         then Inr (Some (car\<lparr>car_parkingTime := t, car_state := exiting, car_target := exit\<rparr>),
                   occupied - {(car_x car, car_y car)}, 0)
         else Inr (Some (car\<lparr>car_parkingTime := t\<rparr>),
                   insert (car_x car, car_y car) occupied, 0))
      else Inr (Some car, occupied, 0))"

text \<open>\<open>prevCars.forEach\<close>: the cars in order, the \<open>i\<close>-th one with its own dwell roll.\<close>

fun stepCars ::
  "Grid \<Rightarrow> bool \<Rightarrow> Point option \<Rightarrow> (nat \<Rightarrow> int) \<Rightarrow> Car list \<Rightarrow> nat \<Rightarrow> Car list \<times> Point set \<times> nat
   \<Rightarrow> error + (Car list \<times> Point set \<times> nat)"
where
  "stepCars grid strictFlow exit dwells [] i acc = Inr acc"
| "stepCars grid strictFlow exit dwells (car # rest) i (nextCars, occupied, count) =
     (case stepCar grid strictFlow exit (dwells i) car occupied of
        Inl e \<Rightarrow> Inl e
      | Inr (None, occupied', k) \<Rightarrow>
          stepCars grid strictFlow exit dwells rest (i + 1) (nextCars, occupied', count + k)
      | Inr (Some nextCar, occupied', k) \<Rightarrow>
          stepCars grid strictFlow exit dwells rest (i + 1)
            (nextCars @ [nextCar], occupied', count + k))"

text \<open>
  The random draws of one spawn attempt: present when \<open>Math.random() < spawnChance\<close>
  succeeded, with the index \<open>floor(random * entries.length)\<close>, the drawn preference and
  the scores the selector will compute.
\<close>

record SpawnDraw =
  entryIndex :: int
  drawnType :: SpotType
  drawnScore :: "Point \<Rightarrow> real"

record SimState =
  st_cars :: "Car list"
  st_occupiedSpots :: "Point set"
  st_totalCars :: nat

text \<open>
  One tick. The selector reads the occupied set of the last render (the state before the
  tick); the queued updates apply in order.
\<close>

definition tick ::
  "Grid \<Rightarrow> bool \<Rightarrow> DistMap option \<Rightarrow> (nat \<Rightarrow> int) \<Rightarrow> SpawnDraw option \<Rightarrow> SimState
   \<Rightarrow> error + SimState"
where
  "tick grid strictFlow mallDistMap dwells spawn st =
     (let entries = getEntryPoints grid in
      case getExitPoint grid of
        Inl e \<Rightarrow> Inl e
      | Inr exit \<Rightarrow>
          (case stepCars grid strictFlow exit dwells (st_cars st) 0
                  ([], st_occupiedSpots st, st_totalCars st) of
             Inl e \<Rightarrow> Inl e
           | Inr (nextCars, occupied, count) \<Rightarrow>
               (case spawn of
                  None \<Rightarrow> Inr \<lparr>st_cars = nextCars, st_occupiedSpots = occupied, st_totalCars = count\<rparr>
                | Some draw \<Rightarrow>
                    if entries = []
                    then Inr \<lparr>st_cars = nextCars, st_occupiedSpots = occupied, st_totalCars = count\<rparr>
                    else
                      (case js_index entries (entryIndex draw) of
                         None \<Rightarrow> Inl TypeError
                       | Some spawnEntry \<Rightarrow>
                           (case findBestSpot grid (st_occupiedSpots st) (drawnType draw)
                                   mallDistMap (drawnScore draw) of
                              Inl e \<Rightarrow> Inl e
                            | Inr targetSpot \<Rightarrow>
                                (let isBlocked =
                                       (\<exists>c \<in> set (st_cars st).
                                          car_x c = fst spawnEntry \<and> car_y c = snd spawnEntry)
                                 in case targetSpot of
                                      None \<Rightarrow>
                                        Inr \<lparr>st_cars = nextCars, st_occupiedSpots = occupied,
                                             st_totalCars = count\<rparr>
                                    | Some spot \<Rightarrow>
                                        if isBlocked
                                        then Inr \<lparr>st_cars = nextCars, st_occupiedSpots = occupied,
                                                  st_totalCars = count\<rparr>
                                        else Inr \<lparr>st_cars = nextCars @
                                                    [\<lparr>car_x = fst spawnEntry,
                                                      car_y = snd spawnEntry,
                                                      car_state = entering,
                                                      car_target = Some spot,
                                                      car_parkingTime = 0,
                                                      car_type = drawnType draw\<rparr>],
                                                  st_occupiedSpots = insert spot occupied,
                                                  st_totalCars = count\<rparr>))))))"

text \<open>Cells for concrete grids: a cell of a given type with every optional field absent.\<close>

definition plainCell :: "CellType \<Rightarrow> GridCell" where
  "plainCell t = \<lparr>type = t, rotation = 0, spotType = None, subMask = None, edges = None,
                   hasFlow = False\<rparr>"

definition spotCell :: "SpotType \<Rightarrow> GridCell" where
  "spotCell t = (plainCell PARKING)\<lparr>spotType := Some t\<rparr>"

definition flowCell :: "int \<Rightarrow> GridCell" where
  "flowCell r = (plainCell PATH)\<lparr>rotation := r, hasFlow := True\<rparr>"

section \<open>Spot Selector: what a returned cell satisfies\<close>

lemma cell_lookup_nth:
  "j < length grid \<Longrightarrow> i < length (grid ! j) \<Longrightarrow> cell_lookup grid (int i, int j) = Some (grid ! j ! i)"
  by (simp add: cell_lookup_def js_index_def)

text \<open>The guard of the candidate loop of \<open>findBestSpot\<close>, as one predicate.\<close>

definition eligible :: "Point set \<Rightarrow> SpotType \<Rightarrow> GridCell \<Rightarrow> Point \<Rightarrow> bool" where
  "eligible occ ct cell p =
     (type cell = PARKING \<and> p \<notin> occ \<and> isCompatible ct (cellSpotType cell))"

lemma candidatesRow_step:
  "candidatesRow (cell # row) x y occ ct m score cands = Inr cands'
   \<Longrightarrow> (eligible occ ct cell (x, y)
        \<and> candidatesRow row (x + 1) y occ ct m score (cands @ [((x, y), score (x, y))]) = Inr cands')
       \<or> (\<not> eligible occ ct cell (x, y)
        \<and> candidatesRow row (x + 1) y occ ct m score cands = Inr cands')"
  by (cases "eligible occ ct cell (x, y)")
     (auto simp: eligible_def split: option.splits)

lemma candidatesRow_sound:
  "candidatesRow row x y occ ct m score cands = Inr cands' \<Longrightarrow> e \<in> set cands'
   \<Longrightarrow> e \<in> set cands
       \<or> (\<exists>i<length row. e = ((x + int i, y), score (x + int i, y))
             \<and> eligible occ ct (row ! i) (x + int i, y))"
proof (induction row arbitrary: x cands)
  case Nil
  then show ?case by simp
next
  case (Cons cell row)
  from candidatesRow_step [OF Cons.prems(1)]
  consider
    (a) "eligible occ ct cell (x, y)"
        "candidatesRow row (x + 1) y occ ct m score (cands @ [((x, y), score (x, y))]) = Inr cands'"
  | (b) "candidatesRow row (x + 1) y occ ct m score cands = Inr cands'"
    by blast
  then have "e \<in> set cands \<or> (e = ((x, y), score (x, y)) \<and> eligible occ ct cell (x, y))
     \<or> (\<exists>i<length row. e = ((x + 1 + int i, y), score (x + 1 + int i, y))
             \<and> eligible occ ct (row ! i) (x + 1 + int i, y))"
  proof cases
    case a
    from Cons.IH [OF a(2) Cons.prems(2)] a(1) show ?thesis by auto
  next
    case b
    from Cons.IH [OF b Cons.prems(2)] show ?thesis by auto
  qed
  then show ?case
  proof (elim disjE exE conjE)
    assume "e \<in> set cands" then show ?thesis by simp
  next
    assume "e = ((x, y), score (x, y))" "eligible occ ct cell (x, y)"
    then have "0 < length (cell # row) \<and> e = ((x + int 0, y), score (x + int 0, y))
             \<and> eligible occ ct ((cell # row) ! 0) (x + int 0, y)" by simp
    then show ?thesis by blast
  next
    fix i assume "i < length row" "e = ((x + 1 + int i, y), score (x + 1 + int i, y))"
      "eligible occ ct (row ! i) (x + 1 + int i, y)"
    then have "Suc i < length (cell # row)
             \<and> e = ((x + int (Suc i), y), score (x + int (Suc i), y))
             \<and> eligible occ ct ((cell # row) ! Suc i) (x + int (Suc i), y)"
      by (simp add: add.assoc)
    then show ?thesis by blast
  qed
qed

lemma candidatesGrid_sound:
  "candidatesGrid rows y occ ct m score cands = Inr cands' \<Longrightarrow> e \<in> set cands'
   \<Longrightarrow> e \<in> set cands
       \<or> (\<exists>j<length rows. \<exists>i<length (rows ! j).
             e = ((int i, y + int j), score (int i, y + int j))
             \<and> eligible occ ct (rows ! j ! i) (int i, y + int j))"
proof (induction rows arbitrary: y cands)
  case Nil
  then show ?case by simp
next
  case (Cons row rows)
  from Cons.prems(1) obtain c1 where
    r: "candidatesRow row 0 y occ ct m score cands = Inr c1"
    and g: "candidatesGrid rows (y + 1) occ ct m score c1 = Inr cands'"
    by (auto split: sum.splits)
  from Cons.IH [OF g Cons.prems(2)]
  show ?case
  proof (elim disjE exE conjE)
    assume "e \<in> set c1"
    from candidatesRow_sound [OF r this]
    show ?thesis
    proof (elim disjE exE conjE)
      assume "e \<in> set cands" then show ?thesis by simp
    next
      fix i assume "i < length row" "e = ((0 + int i, y), score (0 + int i, y))"
        "eligible occ ct (row ! i) (0 + int i, y)"
      then have "0 < length (row # rows) \<and> i < length ((row # rows) ! 0)
        \<and> e = ((int i, y + int 0), score (int i, y + int 0))
        \<and> eligible occ ct ((row # rows) ! 0 ! i) (int i, y + int 0)" by simp
      then show ?thesis by blast
    qed
  next
    fix j i assume "j < length rows" "i < length (rows ! j)"
      "e = ((int i, y + 1 + int j), score (int i, y + 1 + int j))"
      "eligible occ ct (rows ! j ! i) (int i, y + 1 + int j)"
    then have "Suc j < length (row # rows) \<and> i < length ((row # rows) ! Suc j)
        \<and> e = ((int i, y + int (Suc j)), score (int i, y + int (Suc j)))
        \<and> eligible occ ct ((row # rows) ! Suc j ! i) (int i, y + int (Suc j))"
      by (simp add: add.assoc)
    then show ?thesis by blast
  qed
qed

lemma findBestSpot_sound:
  assumes "findBestSpot grid occ ct m score = Inr (Some p)"
  shows "\<exists>cell. cell_lookup grid p = Some cell \<and> eligible occ ct cell p"
proof -
  from assms obtain cands best rest where
    g: "candidatesGrid grid 0 occ ct m score [] = Inr cands"
    and s: "sort_key snd cands = best # rest" and p: "p = fst best"
    by (auto simp: findBestSpot_def split: sum.splits list.splits)
  have "best \<in> set (sort_key snd cands)" using s by simp
  then have "best \<in> set cands" by simp
  from candidatesGrid_sound [OF g this]
  obtain j i where "j < length grid" "i < length (grid ! j)"
    "best = ((int i, int j), score (int i, int j))"
    "eligible occ ct (grid ! j ! i) (int i, int j)"
    by auto
  with p cell_lookup_nth [of j grid i] show ?thesis by auto
qed


lemma candidatesRow_complete:
  "candidatesRow row x y occ ct m score cands = Inr cands'
   \<Longrightarrow> set cands \<subseteq> set cands'
       \<and> (\<forall>i<length row. eligible occ ct (row ! i) (x + int i, y)
             \<longrightarrow> ((x + int i, y), score (x + int i, y)) \<in> set cands')"
proof (induction row arbitrary: x cands)
  case Nil
  then show ?case by simp
next
  case (Cons cell row)
  from candidatesRow_step [OF Cons.prems]
  consider
    (a) "eligible occ ct cell (x, y)"
        "candidatesRow row (x + 1) y occ ct m score (cands @ [((x, y), score (x, y))]) = Inr cands'"
  | (b) "\<not> eligible occ ct cell (x, y)"
        "candidatesRow row (x + 1) y occ ct m score cands = Inr cands'"
    by blast
  then show ?case
  proof cases
    case a
    from Cons.IH [OF a(2)] have sub: "set cands \<subseteq> set cands'"
      and here: "((x, y), score (x, y)) \<in> set cands'"
      and rest: "\<And>i. i < length row \<Longrightarrow> eligible occ ct (row ! i) (x + 1 + int i, y)
                  \<Longrightarrow> ((x + 1 + int i, y), score (x + 1 + int i, y)) \<in> set cands'"
      by auto
    show ?thesis
    proof (intro conjI allI impI)
      show "set cands \<subseteq> set cands'" by (rule sub)
    next
      fix i assume i: "i < length (cell # row)"
        and e: "eligible occ ct ((cell # row) ! i) (x + int i, y)"
      show "((x + int i, y), score (x + int i, y)) \<in> set cands'"
      proof (cases i)
        case 0
        with here show ?thesis by simp
      next
        case (Suc k)
        with i e rest [of k] show ?thesis by (simp add: add.assoc)
      qed
    qed
  next
    case b
    from Cons.IH [OF b(2)] have sub: "set cands \<subseteq> set cands'"
      and rest: "\<And>i. i < length row \<Longrightarrow> eligible occ ct (row ! i) (x + 1 + int i, y)
                  \<Longrightarrow> ((x + 1 + int i, y), score (x + 1 + int i, y)) \<in> set cands'"
      by auto
    show ?thesis
    proof (intro conjI allI impI)
      show "set cands \<subseteq> set cands'" by (rule sub)
    next
      fix i assume i: "i < length (cell # row)"
        and e: "eligible occ ct ((cell # row) ! i) (x + int i, y)"
      show "((x + int i, y), score (x + int i, y)) \<in> set cands'"
      proof (cases i)
        case 0
        with e b(1) show ?thesis by simp
      next
        case (Suc k)
        with i e rest [of k] show ?thesis by (simp add: add.assoc)
      qed
    qed
  qed
qed

lemma candidatesGrid_complete:
  "candidatesGrid rows y occ ct m score cands = Inr cands'
   \<Longrightarrow> set cands \<subseteq> set cands'
       \<and> (\<forall>j<length rows. \<forall>i<length (rows ! j).
             eligible occ ct (rows ! j ! i) (int i, y + int j)
             \<longrightarrow> ((int i, y + int j), score (int i, y + int j)) \<in> set cands')"
proof (induction rows arbitrary: y cands)
  case Nil
  then show ?case by simp
next
  case (Cons row rows)
  from Cons.prems obtain c1 where
    r: "candidatesRow row 0 y occ ct m score cands = Inr c1"
    and g: "candidatesGrid rows (y + 1) occ ct m score c1 = Inr cands'"
    by (auto split: sum.splits)
  from candidatesRow_complete [OF r] have s1: "set cands \<subseteq> set c1"
    and h1: "\<And>i. i < length row \<Longrightarrow> eligible occ ct (row ! i) (int i, y)
                 \<Longrightarrow> ((int i, y), score (int i, y)) \<in> set c1"
    by auto
  from Cons.IH [OF g] have s2: "set c1 \<subseteq> set cands'"
    and h2: "\<And>j i. j < length rows \<Longrightarrow> i < length (rows ! j)
                 \<Longrightarrow> eligible occ ct (rows ! j ! i) (int i, y + 1 + int j)
                 \<Longrightarrow> ((int i, y + 1 + int j), score (int i, y + 1 + int j)) \<in> set cands'"
    by auto
  show ?case
  proof (intro conjI allI impI)
    show "set cands \<subseteq> set cands'" using s1 s2 by blast
  next
    fix j i assume j: "j < length (row # rows)" and i: "i < length ((row # rows) ! j)"
      and e: "eligible occ ct ((row # rows) ! j ! i) (int i, y + int j)"
    show "((int i, y + int j), score (int i, y + int j)) \<in> set cands'"
    proof (cases j)
      case 0
      with i e h1 [of i] s2 show ?thesis by auto
    next
      case (Suc k)
      with j i e h2 [of k i] show ?thesis by (simp add: add.assoc)
    qed
  qed
qed

lemma candidatesRow_None_total:
  "\<exists>cands'. candidatesRow row x y occ ct None score cands = Inr cands'"
  by (induction row arbitrary: x cands) auto

lemma candidatesGrid_None_total:
  "\<exists>cands'. candidatesGrid rows y occ ct None score cands = Inr cands'"
proof (induction rows arbitrary: y cands)
  case Nil
  then show ?case by simp
next
  case (Cons row rows)
  obtain c1 where "candidatesRow row 0 y occ ct None score cands = Inr c1"
    using candidatesRow_None_total by blast
  with Cons.IH [of "y + 1" c1] show ?case by simp
qed

lemma candidatesRow_no_eligible:
  "(\<forall>i<length row. \<not> eligible occ ct (row ! i) (x + int i, y))
   \<Longrightarrow> candidatesRow row x y occ ct m score cands = Inr cands"
proof (induction row arbitrary: x)
  case Nil
  then show ?case by simp
next
  case (Cons cell row)
  from Cons.prems have here: "\<not> eligible occ ct cell (x, y)" by force
  have "\<forall>i<length row. \<not> eligible occ ct (row ! i) (x + 1 + int i, y)"
  proof (intro allI impI)
    fix i assume "i < length row"
    with Cons.prems have "\<not> eligible occ ct ((cell # row) ! Suc i) (x + int (Suc i), y)"
      by (metis length_Cons Suc_less_eq)
    then show "\<not> eligible occ ct (row ! i) (x + 1 + int i, y)" by (simp add: add.assoc)
  qed
  from Cons.IH [OF this] here show ?case by (auto simp: eligible_def)
qed

lemma candidatesGrid_no_eligible:
  "(\<forall>j<length rows. \<forall>i<length (rows ! j). \<not> eligible occ ct (rows ! j ! i) (int i, y + int j))
   \<Longrightarrow> candidatesGrid rows y occ ct m score cands = Inr cands"
proof (induction rows arbitrary: y)
  case Nil
  then show ?case by simp
next
  case (Cons row rows)
  have "\<forall>i<length row. \<not> eligible occ ct (row ! i) (0 + int i, y)"
  proof (intro allI impI)
    fix i assume "i < length row"
    with Cons.prems have "\<not> eligible occ ct ((row # rows) ! 0 ! i) (int i, y + int 0)"
      by (metis length_Cons zero_less_Suc nth_Cons_0)
    then show "\<not> eligible occ ct (row ! i) (0 + int i, y)" by simp
  qed
  from candidatesRow_no_eligible [OF this]
  have r: "candidatesRow row 0 y occ ct m score cands = Inr cands" .
  have "\<forall>j<length rows. \<forall>i<length (rows ! j).
          \<not> eligible occ ct (rows ! j ! i) (int i, y + 1 + int j)"
  proof (intro allI impI)
    fix j i assume "j < length rows" "i < length (rows ! j)"
    with Cons.prems
    have "\<not> eligible occ ct ((row # rows) ! Suc j ! i) (int i, y + int (Suc j))"
      by (metis length_Cons Suc_less_eq nth_Cons_Suc)
    then show "\<not> eligible occ ct (rows ! j ! i) (int i, y + 1 + int j)"
      by (simp add: add.assoc)
  qed
  from Cons.IH [OF this] r show ?case by simp
qed

lemma findBestSpot_none:
  assumes "\<forall>p cell. cell_lookup grid p = Some cell \<longrightarrow> \<not> eligible occ ct cell p"
  shows "findBestSpot grid occ ct m score = Inr None"
proof -
  have "\<forall>j<length grid. \<forall>i<length (grid ! j).
          \<not> eligible occ ct (grid ! j ! i) (int i, 0 + int j)"
    using assms cell_lookup_nth by simp
  from candidatesGrid_no_eligible [OF this]
  show ?thesis by (simp add: findBestSpot_def)
qed

lemma cell_lookup_SomeD:
  "cell_lookup grid p = Some cell
   \<Longrightarrow> \<exists>j<length grid. \<exists>i<length (grid ! j). p = (int i, int j) \<and> cell = grid ! j ! i"
proof -
  assume a: "cell_lookup grid p = Some cell"
  then have "0 \<le> snd p" "nat (snd p) < length grid" "0 \<le> fst p"
    "nat (fst p) < length (grid ! nat (snd p))" "cell = grid ! nat (snd p) ! nat (fst p)"
    by (auto simp: cell_lookup_def js_index_def split: if_splits option.splits)
  then have "nat (snd p) < length grid \<and> nat (fst p) < length (grid ! nat (snd p))
     \<and> p = (int (nat (fst p)), int (nat (snd p))) \<and> cell = grid ! nat (snd p) ! nat (fst p)"
    by (simp add: prod_eq_iff)
  then show ?thesis by blast
qed

lemma findBestSpot_preferred:
  assumes look: "cell_lookup grid p = Some cell" and el: "eligible occ ct cell p"
  shows "findBestSpot grid occ ct None (\<lambda>q. if q = p then 0 else 1) = Inr (Some p)"
proof -
  let ?score = "\<lambda>q::Point. if q = p then 0 else (1::real)"
  obtain cands where g: "candidatesGrid grid 0 occ ct None ?score [] = Inr cands"
    using candidatesGrid_None_total by blast
  from cell_lookup_SomeD [OF look] obtain j i where
    ji: "j < length grid" "i < length (grid ! j)" "p = (int i, int j)" "cell = grid ! j ! i"
    by blast
  with el candidatesGrid_complete [OF g] have pin: "(p, 0) \<in> set cands" by force
  have form: "\<forall>e \<in> set cands. snd e = ?score (fst e)"
    using candidatesGrid_sound [OF g] by fastforce
  from pin obtain best rest where s: "sort_key snd cands = best # rest"
    by (cases "sort_key snd cands") (auto dest: arg_cong [where f = set])
  have "sorted (map snd (sort_key snd cands))" by (rule sorted_sort_key)
  with s have "\<forall>e \<in> set (best # rest). snd best \<le> snd e" by auto
  moreover have "(p, 0) \<in> set (best # rest)" using pin s by (metis set_sort)
  ultimately have "snd best \<le> 0" by fastforce
  moreover have "best \<in> set cands" using s by (metis list.set_intros(1) set_sort)
  ultimately have "fst best = p" using form by (auto split: if_splits)
  with g s show ?thesis by (simp add: findBestSpot_def)
qed

lemmas cell_defs = plainCell_def spotCell_def flowCell_def
lemmas path_defs = findPath_def directions_def tryMove_def cell_lookup_def js_index_def
  allowedDegrees_def isWalkable_def edgeSolid_def subMaskBlocked_def

lemma two_spots_lookup:
  "cell_lookup [[a, b]] q = Some cell \<Longrightarrow> (q = (0, 0) \<and> cell = a) \<or> (q = (1, 0) \<and> cell = b)"
  by (drule cell_lookup_SomeD) (auto simp: less_Suc_eq numeral_2_eq_2)

section \<open>Route Finder: legal moves, routes and the search invariant\<close>

text \<open>
  A route from \<open>start\<close> under a move relation \<open>M\<close>: a non-empty sequence of cells that
  begins at \<open>start\<close> and whose consecutive cells are related by \<open>M\<close>.
\<close>

definition routeFrom :: "(Point \<Rightarrow> Point \<Rightarrow> bool) \<Rightarrow> Point \<Rightarrow> Point list \<Rightarrow> bool" where
  "routeFrom M start r = (r \<noteq> [] \<and> hd r = start \<and> successively M r)"

text \<open>The visited cells that have left the queue.\<close>

definition settled :: "bfs_queue \<Rightarrow> Point set \<Rightarrow> Point set" where
  "settled queue visited = visited - fst ` set queue"

text \<open>
  The invariant of the \<open>while\<close> loop: every queue entry carries a route to its cell; queued
  cells are visited and pairwise distinct; the route lengths in the queue are ascending and
  differ by at most one; settled cells are not the target and all their successors are
  visited; every route shorter than the head's ends on a settled cell, and every route as
  long as the head's ends on a settled cell or on a queued cell with a route of that length.
\<close>

definition bfsInv ::
  "(Point \<Rightarrow> Point \<Rightarrow> bool) \<Rightarrow> Point \<Rightarrow> Point \<Rightarrow> bfs_queue \<Rightarrow> Point set \<Rightarrow> bool"
where
  "bfsInv M start target queue visited =
     ((\<forall>e \<in> set queue. routeFrom M start (snd e) \<and> last (snd e) = fst e)
      \<and> fst ` set queue \<subseteq> visited \<and> start \<in> visited
      \<and> distinct (map fst queue)
      \<and> sorted (map (\<lambda>e. length (snd e)) queue)
      \<and> (\<forall>e \<in> set queue. length (snd e) \<le> length (snd (hd queue)) + 1)
      \<and> (\<forall>v \<in> settled queue visited. v \<noteq> target \<and> (\<forall>u. M v u \<longrightarrow> u \<in> visited))
      \<and> (\<forall>r. routeFrom M start r \<longrightarrow> queue \<noteq> [] \<longrightarrow> length r < length (snd (hd queue))
            \<longrightarrow> last r \<in> settled queue visited)
      \<and> (\<forall>r. routeFrom M start r \<longrightarrow> queue \<noteq> [] \<longrightarrow> length r = length (snd (hd queue))
            \<longrightarrow> last r \<in> settled queue visited
                \<or> (\<exists>path. (last r, path) \<in> set queue \<and> length path = length r)))"

lemma routeFrom_single: "routeFrom M start [start]"
  by (simp add: routeFrom_def)

lemma routeFrom_snoc:
  "routeFrom M start r \<Longrightarrow> M (last r) u \<Longrightarrow> routeFrom M start (r @ [u])"
  by (auto simp: routeFrom_def successively_append_iff)

lemma routeFrom_butlast:
  assumes "routeFrom M start r" and "2 \<le> length r"
  shows "routeFrom M start (butlast r) \<and> M (last (butlast r)) (last r)"
proof -
  from assms(2) have ne: "r \<noteq> []" by auto
  then have r: "r = butlast r @ [last r]" by simp
  from assms(2) have bne: "butlast r \<noteq> []" by (cases r) (auto split: if_splits)
  from assms(1) have "successively M (butlast r @ [last r])" "hd r = start"
    using r by (simp_all add: routeFrom_def)
  moreover have "hd (butlast r) = hd r" using bne by (cases r) (auto split: if_splits)
  ultimately show ?thesis using bne
    by (simp add: routeFrom_def successively_append_iff)
qed

lemma sorted_hd_min: "sorted (map f xs) \<Longrightarrow> e \<in> set xs \<Longrightarrow> f (hd xs) \<le> (f e :: nat)"
  by (cases xs) auto

lemma sorted_map_const: "sorted (map (\<lambda>n. c :: nat) xs)"
  by (induction xs) auto

lemma bfsInv_init: "bfsInv M start target [(start, [start])] {start}"
proof -
  have "\<And>r. routeFrom M start r \<Longrightarrow> length r = 1 \<Longrightarrow> last r = start"
    by (auto simp: routeFrom_def length_Suc_conv)
  moreover have "\<And>r. routeFrom M start r \<Longrightarrow> \<not> length r < 1"
    by (auto simp: routeFrom_def)
  ultimately show ?thesis
    by (auto simp: bfsInv_def settled_def routeFrom_single)
qed

lemma bfsInv_step:
  assumes inv: "bfsInv M start target ((p1, path1) # rest) visited"
    and nt: "p1 \<noteq> target"
    and dn: "distinct news"
    and sn: "set news = {n. n \<notin> visited \<and> M p1 n}"
  shows "bfsInv M start target (rest @ map (\<lambda>n. (n, path1 @ [n])) news) (visited \<union> set news)"
proof -
  let ?q = "(p1, path1) # rest"
  let ?f = "\<lambda>n. (n, path1 @ [n])"
  let ?q' = "rest @ map ?f news"
  let ?v' = "visited \<union> set news"
  let ?l = "length path1"
  let ?len = "\<lambda>e::Point \<times> Point list. length (snd e)"
  note I = inv [unfolded bfsInv_def]
  from I have a1: "\<forall>e \<in> set ?q. routeFrom M start (snd e) \<and> last (snd e) = fst e" by blast
  from I have a2: "fst ` set ?q \<subseteq> visited" by blast
  from I have sv: "start \<in> visited" by blast
  from I have a3: "distinct (map fst ?q)" by blast
  from I have a4: "sorted (map ?len ?q)" by blast
  from I have a5: "\<forall>e \<in> set ?q. ?len e \<le> ?len (hd ?q) + 1" by blast
  from I have cl: "\<forall>v \<in> settled ?q visited. v \<noteq> target \<and> (\<forall>u. M v u \<longrightarrow> u \<in> visited)"
    by blast
  from I have a6: "\<forall>r. routeFrom M start r \<longrightarrow> ?q \<noteq> [] \<longrightarrow> length r < ?len (hd ?q)
            \<longrightarrow> last r \<in> settled ?q visited" by blast
  from I have a7: "\<forall>r. routeFrom M start r \<longrightarrow> ?q \<noteq> [] \<longrightarrow> length r = ?len (hd ?q)
            \<longrightarrow> last r \<in> settled ?q visited
                \<or> (\<exists>path. (last r, path) \<in> set ?q \<and> length path = length r)" by blast
  from a1 have r1: "routeFrom M start path1" and l1: "last path1 = p1"
    and rr: "\<forall>e \<in> set rest. routeFrom M start (snd e) \<and> last (snd e) = fst e"
    by simp_all
  from a2 have pv: "p1 \<in> visited" and rv: "fst ` set rest \<subseteq> visited" by simp_all
  from a3 have pd: "p1 \<notin> fst ` set rest" and rd: "distinct (map fst rest)" by simp_all
  from a4 have srt: "sorted (map ?len rest)" and lo: "\<forall>e \<in> set rest. ?l \<le> ?len e"
    by simp_all
  from a5 have hi: "\<forall>e \<in> set rest. ?len e \<le> ?l + 1" by simp
  from a6 have i4: "\<forall>r. routeFrom M start r \<longrightarrow> length r < ?l \<longrightarrow> last r \<in> settled ?q visited"
    by simp
  from a7 have i5: "\<forall>r. routeFrom M start r \<longrightarrow> length r = ?l
            \<longrightarrow> last r \<in> settled ?q visited
                \<or> (\<exists>path. (last r, path) \<in> set ?q \<and> length path = length r)"
    by simp
  have nv: "set news \<inter> visited = {}" using sn by auto
  have st: "settled ?q' ?v' = insert p1 (settled ?q visited)"
    using nv pv pd rv by (auto simp: settled_def image_Un image_image)
  have setq': "set ?q' = set rest \<union> ?f ` set news" by auto
  have lo': "\<forall>e \<in> set ?q'. ?l \<le> ?len e" using lo by auto
  have hi': "\<forall>e \<in> set ?q'. ?len e \<le> ?l + 1" using hi by auto
  have srt': "sorted (map ?len ?q')"
    using srt hi by (auto simp: sorted_append comp_def sorted_map_const)
  have hdmin: "\<forall>e \<in> set ?q'. ?len (hd ?q') \<le> ?len e"
    using sorted_hd_min [OF srt'] by blast
  have c1: "\<forall>e \<in> set ?q'. routeFrom M start (snd e) \<and> last (snd e) = fst e"
  proof
    fix e assume "e \<in> set ?q'"
    then consider "e \<in> set rest" | n where "n \<in> set news" "e = ?f n" by auto
    then show "routeFrom M start (snd e) \<and> last (snd e) = fst e"
    proof cases
      case 1 with rr show ?thesis by simp
    next
      case 2
      with sn have "M p1 n" by simp
      with r1 l1 2 show ?thesis by (simp add: routeFrom_snoc)
    qed
  qed
  have c2: "fst ` set ?q' \<subseteq> ?v'" using rv by (auto simp: image_Un image_image)
  have c3: "distinct (map fst ?q')"
    using rd dn nv rv by (auto simp: comp_def)
  have c4: "\<forall>e \<in> set ?q'. ?len e \<le> ?len (hd ?q') + 1"
  proof
    fix e assume e: "e \<in> set ?q'"
    then have "?q' \<noteq> []" by auto
    then have "hd ?q' \<in> set ?q'" by (rule hd_in_set)
    with lo' have "?l \<le> ?len (hd ?q')" by blast
    with hi' e show "?len e \<le> ?len (hd ?q') + 1" by fastforce
  qed
  have c5: "\<forall>v \<in> settled ?q' ?v'. v \<noteq> target \<and> (\<forall>u. M v u \<longrightarrow> u \<in> ?v')"
  proof
    fix v assume "v \<in> settled ?q' ?v'"
    with st consider "v = p1" | "v \<in> settled ?q visited" by auto
    then show "v \<noteq> target \<and> (\<forall>u. M v u \<longrightarrow> u \<in> ?v')"
    proof cases
      case 1 with nt sn show ?thesis by auto
    next
      case 2 with cl show ?thesis by auto
    qed
  qed
  have upto: "last r \<in> settled ?q' ?v'"
    if r: "routeFrom M start r" and len: "length r < ?len (hd ?q')" and ne: "?q' \<noteq> []" for r
  proof (cases "length r < ?l")
    case True
    with i4 r st show ?thesis by auto
  next
    case False
    from ne have "hd ?q' \<in> set ?q'" by (rule hd_in_set)
    with hi' have "?len (hd ?q') \<le> ?l + 1" by blast
    with False len have eq: "length r = ?l" and hl: "?len (hd ?q') = ?l + 1" by auto
    from i5 r eq consider "last r \<in> settled ?q visited"
      | path where "(last r, path) \<in> set ?q" "length path = ?l" by auto
    then show ?thesis
    proof cases
      case 1 with st show ?thesis by auto
    next
      case 2
      have "(last r, path) \<notin> set rest"
      proof
        assume "(last r, path) \<in> set rest"
        then have "(last r, path) \<in> set ?q'" by simp
        with hdmin have "?len (hd ?q') \<le> length path" by fastforce
        with hl 2 show False by simp
      qed
      with 2 have "last r = p1" by auto
      with st show ?thesis by simp
    qed
  qed
  have c6: "\<forall>r. routeFrom M start r \<longrightarrow> ?q' \<noteq> [] \<longrightarrow> length r < ?len (hd ?q')
            \<longrightarrow> last r \<in> settled ?q' ?v'"
    using upto by blast
  have c7: "\<forall>r. routeFrom M start r \<longrightarrow> ?q' \<noteq> [] \<longrightarrow> length r = ?len (hd ?q')
            \<longrightarrow> last r \<in> settled ?q' ?v'
                \<or> (\<exists>path. (last r, path) \<in> set ?q' \<and> length path = length r)"
  proof (intro allI impI)
    fix r assume r: "routeFrom M start r" and ne: "?q' \<noteq> []"
      and len: "length r = ?len (hd ?q')"
    from ne have hin: "hd ?q' \<in> set ?q'" by (rule hd_in_set)
    with lo' hi' have "?len (hd ?q') = ?l \<or> ?len (hd ?q') = ?l + 1" by fastforce
    then show "last r \<in> settled ?q' ?v'
                \<or> (\<exists>path. (last r, path) \<in> set ?q' \<and> length path = length r)"
    proof
      assume h: "?len (hd ?q') = ?l"
      with i5 r len consider "last r \<in> settled ?q visited"
        | path where "(last r, path) \<in> set ?q" "length path = length r" by auto
      then show ?thesis
      proof cases
        case 1 with st show ?thesis by auto
      next
        case 2
        show ?thesis
        proof (cases "(last r, path) \<in> set rest")
          case True with 2 show ?thesis by auto
        next
          case False
          with 2 have "last r = p1" by auto
          with st show ?thesis by simp
        qed
      qed
    next
      assume h: "?len (hd ?q') = ?l + 1"
      from r1 have "1 \<le> ?l" by (cases path1) (auto simp: routeFrom_def)
      with h len have two: "2 \<le> length r" by simp
      from routeFrom_butlast [OF r two]
      have rb: "routeFrom M start (butlast r)" and mv: "M (last (butlast r)) (last r)" by auto
      have "length (butlast r) < ?len (hd ?q')" using len two by simp
      from upto [OF rb this ne] have "last (butlast r) \<in> settled ?q' ?v'" .
      with c5 mv have "last r \<in> ?v'" by blast
      then consider "last r \<in> settled ?q' ?v'" | "last r \<in> fst ` set ?q'"
        by (auto simp: settled_def)
      then show ?thesis
      proof cases
        case 1 then show ?thesis by simp
      next
        case 2
        then obtain path where pin: "(last r, path) \<in> set ?q'" by force
        with hdmin hi' h have "length path = ?l + 1" by fastforce
        with pin h len show ?thesis by auto
      qed
    qed
  qed
  from c1 c2 c3 srt' c4 c5 c6 c7 sv show ?thesis
    unfolding bfsInv_def by blast
qed

text \<open>
  The moves of the code: \<open>b\<close> is accepted from \<open>a\<close> when the loop body of \<open>findPath\<close>,
  run at the cell \<open>a\<close> of the grid, passes \<open>b\<close> for one of the four directions.
\<close>

definition acceptedMove :: "Grid \<Rightarrow> int \<Rightarrow> int \<Rightarrow> Point \<Rightarrow> bool \<Rightarrow> Point \<Rightarrow> Point \<Rightarrow> bool" where
  "acceptedMove grid width height target strictMode a b =
     (case cell_lookup grid a of
        None \<Rightarrow> False
      | Some currentCell \<Rightarrow>
          (\<exists>dir \<in> set directions.
             tryMove grid width height target strictMode currentCell a dir = Inr (Some b)))"

lemma expand_char:
  "expand grid w h t s cur pos path dirs (queue, visited) = Inr (queue', visited')
   \<Longrightarrow> \<exists>news. queue' = queue @ map (\<lambda>n. (n, path @ [n])) news
         \<and> visited' = visited \<union> set news \<and> distinct news
         \<and> set news = {n. n \<notin> visited
                          \<and> (\<exists>dir \<in> set dirs. tryMove grid w h t s cur pos dir = Inr (Some n))}"
proof (induction dirs arbitrary: queue visited)
  case Nil
  then have "queue' = queue @ map (\<lambda>n. (n, path @ [n])) [] \<and> visited' = visited \<union> set []
     \<and> distinct ([] :: Point list)
     \<and> set [] = {n. n \<notin> visited
                          \<and> (\<exists>dir \<in> set []. tryMove grid w h t s cur pos dir = Inr (Some n))}"
    by simp
  then show ?case by blast
next
  case (Cons dir dirs)
  let ?T = "\<lambda>d. tryMove grid w h t s cur pos d"
  show ?case
  proof (cases "?T dir")
    case (Inl e)
    with Cons.prems show ?thesis by simp
  next
    case (Inr r)
    show ?thesis
    proof (cases "\<exists>n. r = Some n \<and> n \<notin> visited")
      case False
      with Inr Cons.prems
      have "expand grid w h t s cur pos path dirs (queue, visited) = Inr (queue', visited')"
        by (cases r) auto
      from Cons.IH [OF this] obtain news where
        n: "queue' = queue @ map (\<lambda>n. (n, path @ [n])) news" "visited' = visited \<union> set news"
           "distinct news"
           "set news = {n. n \<notin> visited \<and> (\<exists>d \<in> set dirs. ?T d = Inr (Some n))}"
        by blast
      from False Inr have "\<And>n. ?T dir = Inr (Some n) \<Longrightarrow> n \<in> visited" by auto
      with n(4) have "set news = {n. n \<notin> visited \<and> (\<exists>d \<in> set (dir # dirs). ?T d = Inr (Some n))}"
        by auto
      with n(1-3) show ?thesis by blast
    next
      case True
      then obtain n where r: "r = Some n" and nv: "n \<notin> visited" by blast
      with Inr Cons.prems
      have "expand grid w h t s cur pos path dirs
              (queue @ [(n, path @ [n])], insert n visited) = Inr (queue', visited')"
        by simp
      from Cons.IH [OF this] obtain news where
        n: "queue' = (queue @ [(n, path @ [n])]) @ map (\<lambda>n. (n, path @ [n])) news"
           "visited' = insert n visited \<union> set news"
           "distinct news"
           "set news = {m. m \<notin> insert n visited \<and> (\<exists>d \<in> set dirs. ?T d = Inr (Some m))}"
        by blast
      have "queue' = queue @ map (\<lambda>n. (n, path @ [n])) (n # news)" using n(1) by simp
      moreover have "visited' = visited \<union> set (n # news)" using n(2) by auto
      moreover have "distinct (n # news)" using n(3,4) by auto
      moreover have "set (n # news)
          = {m. m \<notin> visited \<and> (\<exists>d \<in> set (dir # dirs). ?T d = Inr (Some m))}"
        using n(4) nv Inr r by auto
      ultimately show ?thesis by blast
    qed
  qed
qed

lemma tryMove_total:
  assumes "\<forall>p \<in> box w h. cell_lookup grid p \<noteq> None"
  shows "\<exists>r. tryMove grid w h t s cur pos dir = Inr r"
proof (cases "(fst pos + dx dir, snd pos + dy dir) \<in> box w h")
  case True
  with assms obtain c where "cell_lookup grid (fst pos + dx dir, snd pos + dy dir) = Some c"
    by blast
  then show ?thesis by (simp add: tryMove_def Let_def)
next
  case False
  then show ?thesis by (auto simp: tryMove_def Let_def box_def)
qed

lemma expand_total:
  assumes "\<forall>p \<in> box w h. cell_lookup grid p \<noteq> None"
  shows "\<exists>st'. expand grid w h t s cur pos path dirs st = Inr st'"
proof (induction dirs arbitrary: st)
  case Nil
  then show ?case by simp
next
  case (Cons dir dirs)
  obtain queue visited where st: "st = (queue, visited)" by (cases st)
  from tryMove_total [OF assms] obtain r where r: "tryMove grid w h t s cur pos dir = Inr r"
    by blast
  show ?case
  proof (cases r)
    case None
    with r st Cons.IH [of "(queue, visited)"] show ?thesis by simp
  next
    case (Some n)
    with r st Cons.IH [of "(queue, visited)"]
      Cons.IH [of "(queue @ [(n, path @ [n])], insert n visited)"]
    show ?thesis by simp
  qed
qed

lemma routeFrom_closed:
  assumes "start \<in> V" and "\<forall>v \<in> V. \<forall>u. M v u \<longrightarrow> u \<in> V"
  shows "routeFrom M start r \<Longrightarrow> last r \<in> V"
proof (induction r rule: rev_induct)
  case Nil
  then show ?case by (simp add: routeFrom_def)
next
  case (snoc u r)
  show ?case
  proof (cases "r = []")
    case True
    with snoc.prems assms(1) show ?thesis by (simp add: routeFrom_def)
  next
    case False
    with snoc.prems have "routeFrom M start r" "M (last r) u"
      by (auto simp: routeFrom_def successively_append_iff)
    with snoc.IH have "last r \<in> V" "M (last r) u" by simp_all
    with assms(2) have "u \<in> V" by blast
    then show ?thesis by simp
  qed
qed

text \<open>What the loop returns: the empty sequence when no route reaches the target, otherwise
  a route to the target that no route to the target undercuts.\<close>

definition bfsPost :: "(Point \<Rightarrow> Point \<Rightarrow> bool) \<Rightarrow> Point \<Rightarrow> Point \<Rightarrow> Point list \<Rightarrow> bool" where
  "bfsPost M start target path =
     (if path = [] then (\<forall>r. routeFrom M start r \<longrightarrow> last r \<noteq> target)
      else routeFrom M start path \<and> last path = target
           \<and> (\<forall>r. routeFrom M start r \<longrightarrow> last r = target \<longrightarrow> length path \<le> length r))"

lemma bfsInv_empty:
  assumes "bfsInv M start target [] visited"
  shows "bfsPost M start target []"
proof -
  note I = assms [unfolded bfsInv_def]
  from I have sv: "start \<in> visited" by blast
  from I have cl: "\<forall>v \<in> settled [] visited. v \<noteq> target \<and> (\<forall>u. M v u \<longrightarrow> u \<in> visited)"
    by blast
  then have c: "\<forall>v \<in> visited. \<forall>u. M v u \<longrightarrow> u \<in> visited" and nt: "target \<notin> visited"
    by (auto simp: settled_def)
  from routeFrom_closed [OF sv c] nt show ?thesis
    by (auto simp: bfsPost_def)
qed

lemma bfsInv_found:
  assumes "bfsInv M start target ((target, path) # rest) visited"
  shows "bfsPost M start target path"
proof -
  let ?q = "(target, path) # rest"
  note I = assms [unfolded bfsInv_def]
  from I have a1: "\<forall>e \<in> set ?q. routeFrom M start (snd e) \<and> last (snd e) = fst e" by blast
  from I have cl: "\<forall>v \<in> settled ?q visited. v \<noteq> target \<and> (\<forall>u. M v u \<longrightarrow> u \<in> visited)"
    by blast
  from I have a6: "\<forall>r. routeFrom M start r \<longrightarrow> ?q \<noteq> [] \<longrightarrow> length r < length (snd (hd ?q))
            \<longrightarrow> last r \<in> settled ?q visited" by blast
  from a1 have r: "routeFrom M start path" "last path = target" by simp_all
  then have ne: "path \<noteq> []" by (simp add: routeFrom_def)
  have "length path \<le> length r" if "routeFrom M start r" "last r = target" for r
  proof (rule ccontr)
    assume "\<not> length path \<le> length r"
    with a6 that(1) have "last r \<in> settled ?q visited" by simp
    with cl that(2) show False by blast
  qed
  with r ne show ?thesis by (simp add: bfsPost_def)
qed

lemma bfsLoop_correct:
  assumes tot: "\<forall>p \<in> box w h. cell_lookup grid p \<noteq> None"
  shows "bfsInv (acceptedMove grid w h target s) start target queue visited
     \<Longrightarrow> \<forall>e \<in> set queue. cell_lookup grid (fst e) \<noteq> None
     \<Longrightarrow> \<exists>path. bfsLoop grid w h target s queue visited = Inr path
            \<and> bfsPost (acceptedMove grid w h target s) start target path"
  using tot
proof (induction grid w h target s queue visited rule: bfsLoop.induct)
  case (1 grid w h target s visited)
  from bfsInv_empty [OF "1.prems"(1)] show ?case by simp
next
  case (2 grid w h target s pos path queue visited)
  let ?M = "acceptedMove grid w h target s"
  show ?case
  proof (cases "pos = target")
    case True
    with bfsInv_found [of ?M start target path queue visited] "2.prems"(1)
    show ?thesis by simp
  next
    case False
    from "2.prems"(2) obtain cur where cur: "cell_lookup grid pos = Some cur" by auto
    from expand_total [OF "2.prems"(3)] obtain queue' visited' where
      ex: "expand grid w h target s cur pos path directions (queue, visited)
             = Inr (queue', visited')"
      by (metis surj_pair)
    from expand_char [OF ex] obtain news where
      n: "queue' = queue @ map (\<lambda>n. (n, path @ [n])) news" "visited' = visited \<union> set news"
         "distinct news"
         "set news = {n. n \<notin> visited
             \<and> (\<exists>dir \<in> set directions. tryMove grid w h target s cur pos dir = Inr (Some n))}"
      by blast
    from n(4) cur have sn: "set news = {n. n \<notin> visited \<and> ?M pos n}"
      by (simp add: acceptedMove_def)
    from bfsInv_step [OF "2.prems"(1) False n(3) sn] n(1,2)
    have inv': "bfsInv ?M start target queue' visited'" by simp
    have "\<forall>n \<in> set news. n \<in> box w h"
      using n(4) by (auto dest: tryMove_in_box)
    with "2.prems"(3) have "\<forall>n \<in> set news. cell_lookup grid n \<noteq> None" by blast
    with "2.prems"(2) n(1) have cells': "\<forall>e \<in> set queue'. cell_lookup grid (fst e) \<noteq> None"
      by auto
    from "2.IH" [OF False cur ex refl inv' cells' "2.prems"(3)]
    show ?thesis using False cur ex by simp
  qed
qed

text \<open>
  The width and height \<open>findPath\<close> reads off the grid, a grid whose rows all have the
  length of the first, a route of accepted moves between two cells, orthogonal adjacency, and the
  degrees of the direction that leads from one cell to a neighbour (from the \<open>directions\<close>
  table).
\<close>

definition gridWidth :: "Grid \<Rightarrow> int" where
  "gridWidth grid = (case grid of [] \<Rightarrow> 0 | row0 # _ \<Rightarrow> int (length row0))"

definition gridHeight :: "Grid \<Rightarrow> int" where
  "gridHeight grid = int (length grid)"

definition rectangular :: "Grid \<Rightarrow> bool" where
  "rectangular grid = (\<forall>row \<in> set grid. length row = length (hd grid))"

definition acceptedRoute :: "Grid \<Rightarrow> bool \<Rightarrow> Point \<Rightarrow> Point \<Rightarrow> Point list \<Rightarrow> bool" where
  "acceptedRoute grid strictMode start target r =
     (r \<noteq> [] \<and> hd r = start \<and> last r = target
      \<and> successively (acceptedMove grid (gridWidth grid) (gridHeight grid) target strictMode) r)"

definition adjacent :: "Point \<Rightarrow> Point \<Rightarrow> bool" where
  "adjacent a b = (\<bar>fst a - fst b\<bar> + \<bar>snd a - snd b\<bar> = 1)"

definition travelDeg :: "Point \<Rightarrow> Point \<Rightarrow> int option" where
  "travelDeg a b =
     map_option deg (find (\<lambda>d. (fst a + dx d, snd a + dy d) = b) directions)"

lemma directions_cases:
  "dir \<in> set directions \<Longrightarrow>
     dir = \<lparr>dx = 0, dy = -1, deg = 0, edge = North, oppEdge = South\<rparr>
   \<or> dir = \<lparr>dx = 1, dy = 0, deg = 90, edge = East, oppEdge = West\<rparr>
   \<or> dir = \<lparr>dx = 0, dy = 1, deg = 180, edge = South, oppEdge = North\<rparr>
   \<or> dir = \<lparr>dx = -1, dy = 0, deg = 270, edge = West, oppEdge = East\<rparr>"
  by (simp add: directions_def)

lemma travelDeg_direction:
  "dir \<in> set directions \<Longrightarrow> travelDeg a (fst a + dx dir, snd a + dy dir) = Some (deg dir)"
  by (drule directions_cases) (auto simp: travelDeg_def directions_def)

lemma adjacent_direction:
  "dir \<in> set directions \<Longrightarrow> adjacent a (fst a + dx dir, snd a + dy dir)"
  by (drule directions_cases) (auto simp: adjacent_def)

lemma tryMove_Some_iff:
  "tryMove grid w h t s cur pos dir = Inr (Some n) \<longleftrightarrow>
     (allowedDegrees cur = None \<or> allowedDegrees cur = Some (deg dir))
     \<and> n = (fst pos + dx dir, snd pos + dy dir) \<and> n \<in> box w h
     \<and> (\<exists>c. cell_lookup grid n = Some c
           \<and> \<not> (s \<and> type c = PATH \<and> hasFlow c \<and> \<bar>rotation c - deg dir\<bar> = 180)
           \<and> \<not> edgeSolid cur (edge dir) \<and> \<not> edgeSolid c (oppEdge dir)
           \<and> \<not> subMaskBlocked c \<and> isWalkable c n t s)"
proof (cases "cell_lookup grid (fst pos + dx dir, snd pos + dy dir)")
  case None
  then show ?thesis by (auto simp: tryMove_def Let_def box_def)
next
  case (Some c)
  then show ?thesis by (auto simp: tryMove_def Let_def box_def)
qed

lemma acceptedMove_iff:
  "acceptedMove grid w h t s a b \<longleftrightarrow>
     (\<exists>cur c. \<exists>dir \<in> set directions.
        cell_lookup grid a = Some cur \<and> cell_lookup grid b = Some c
        \<and> b = (fst a + dx dir, snd a + dy dir) \<and> b \<in> box w h
        \<and> (allowedDegrees cur = None \<or> allowedDegrees cur = Some (deg dir))
        \<and> \<not> (s \<and> type c = PATH \<and> hasFlow c \<and> \<bar>rotation c - deg dir\<bar> = 180)
        \<and> \<not> edgeSolid cur (edge dir) \<and> \<not> edgeSolid c (oppEdge dir)
        \<and> \<not> subMaskBlocked c \<and> isWalkable c b t s)"
proof (cases "cell_lookup grid a")
  case None
  then show ?thesis by (simp add: acceptedMove_def)
next
  case (Some cur)
  then show ?thesis
    unfolding acceptedMove_def tryMove_Some_iff by (simp, blast)
qed

lemma acceptedMove_adjacent: "acceptedMove grid w h t s a b \<Longrightarrow> adjacent a b"
  unfolding acceptedMove_iff using adjacent_direction by blast

lemma acceptedMove_strict:
  assumes "acceptedMove grid w h t True a b"
  shows "\<exists>c. cell_lookup grid b = Some c
           \<and> (type c = PATH \<longrightarrow> hasFlow c
                \<and> (\<exists>d. travelDeg a b = Some d \<and> \<bar>rotation c - d\<bar> \<noteq> 180))"
proof -
  from assms [unfolded acceptedMove_iff] obtain cur c dir where
    d: "dir \<in> set directions" and c: "cell_lookup grid b = Some c"
    and b: "b = (fst a + dx dir, snd a + dy dir)"
    and f: "\<not> (True \<and> type c = PATH \<and> hasFlow c \<and> \<bar>rotation c - deg dir\<bar> = 180)"
    and w: "isWalkable c b t True"
    by blast
  from travelDeg_direction [OF d, of a] b have "travelDeg a b = Some (deg dir)" by simp
  with c f w show ?thesis by (auto simp: isWalkable_def split: if_splits)
qed

lemma successively_nth:
  "successively P xs \<Longrightarrow> Suc i < length xs \<Longrightarrow> P (xs ! i) (xs ! Suc i)"
proof (induction xs arbitrary: i rule: induct_list012)
  case (3 x y zs)
  then show ?case by (cases i) auto
qed auto

lemma bfsLoop_sound:
  "\<forall>e \<in> set queue. routeFrom (acceptedMove grid w h target s) start (snd e) \<and> last (snd e) = fst e
   \<Longrightarrow> bfsLoop grid w h target s queue visited = Inr path \<Longrightarrow> path \<noteq> []
   \<Longrightarrow> routeFrom (acceptedMove grid w h target s) start path \<and> last path = target"
proof (induction grid w h target s queue visited rule: bfsLoop.induct)
  case (1 grid w h target s visited)
  then show ?case by simp
next
  case (2 grid w h target s pos p1 queue visited)
  let ?M = "acceptedMove grid w h target s"
  show ?case
  proof (cases "pos = target")
    case True
    with "2.prems" show ?thesis by simp
  next
    case False
    with "2.prems"(2) obtain cur where cur: "cell_lookup grid pos = Some cur"
      by (cases "cell_lookup grid pos") auto
    with False "2.prems"(2) obtain queue' visited' where
      ex: "expand grid w h target s cur pos p1 directions (queue, visited)
             = Inr (queue', visited')"
      and res: "bfsLoop grid w h target s queue' visited' = Inr path"
      by (auto split: sum.splits)
    from expand_char [OF ex] obtain news where
      n: "queue' = queue @ map (\<lambda>n. (n, p1 @ [n])) news"
         "set news = {n. n \<notin> visited
             \<and> (\<exists>dir \<in> set directions. tryMove grid w h target s cur pos dir = Inr (Some n))}"
      by blast
    from n(2) cur have mv: "\<forall>n \<in> set news. ?M pos n" by (simp add: acceptedMove_def)
    from "2.prems"(1) have "routeFrom ?M start p1" "last p1 = pos" by simp_all
    with mv have "\<forall>n \<in> set news. routeFrom ?M start (p1 @ [n])"
      by (simp add: routeFrom_snoc)
    with "2.prems"(1) n(1)
    have "\<forall>e \<in> set queue'. routeFrom ?M start (snd e) \<and> last (snd e) = fst e" by auto
    from "2.IH" [OF False cur ex refl this res "2.prems"(3)] show ?thesis .
  qed
qed

lemma findPath_sound:
  assumes "findPath grid start target s = Inr path" and "path \<noteq> []"
  shows "acceptedRoute grid s start target path"
proof -
  from assms(1) obtain row0 rest where g: "grid = row0 # rest"
    by (cases grid) (auto simp: findPath_def)
  with assms(1) have
    "bfsLoop grid (gridWidth grid) (gridHeight grid) target s [(start, [start])] {start}
       = Inr path"
    by (simp add: findPath_def gridWidth_def gridHeight_def)
  from bfsLoop_sound [OF _ this assms(2), of start]
  show ?thesis by (simp add: routeFrom_single acceptedRoute_def routeFrom_def)
qed

lemma rectangular_total:
  assumes "rectangular grid"
  shows "\<forall>p \<in> box (gridWidth grid) (gridHeight grid). cell_lookup grid p \<noteq> None"
proof
  fix p assume p: "p \<in> box (gridWidth grid) (gridHeight grid)"
  then have y: "0 \<le> snd p" "nat (snd p) < length grid" and x: "0 \<le> fst p" "fst p < gridWidth grid"
    by (auto simp: box_def gridHeight_def)
  then have "grid ! nat (snd p) \<in> set grid" by simp
  with assms have "length (grid ! nat (snd p)) = length (hd grid)" by (simp add: rectangular_def)
  moreover from y have "gridWidth grid = int (length (hd grid))"
    by (cases grid) (auto simp: gridWidth_def)
  ultimately show "cell_lookup grid p \<noteq> None"
    using x y by (simp add: cell_lookup_def js_index_def)
qed

lemma findPath_complete:
  assumes rect: "rectangular grid" and st: "cell_lookup grid start \<noteq> None"
  shows "\<exists>path. findPath grid start target s = Inr path
     \<and> bfsPost (acceptedMove grid (gridWidth grid) (gridHeight grid) target s) start target path"
proof -
  from st obtain row0 rest where g: "grid = row0 # rest"
    by (cases grid) (auto simp: cell_lookup_def js_index_def split: if_splits)
  have fp: "findPath grid start target s
     = bfsLoop grid (gridWidth grid) (gridHeight grid) target s [(start, [start])] {start}"
    using g by (simp add: findPath_def gridWidth_def gridHeight_def)
  from bfsLoop_correct [OF rectangular_total [OF rect] bfsInv_init, of start target s] st fp
  show ?thesis by simp
qed

section \<open>Claims about the Spot Selector\<close>

text \<open>
  Claim C7. Whatever the grid, the occupied set, the preference, the distance field and
  the scores, a cell returned by \<open>findBestSpot\<close> is not in the occupied set, is a
  \<open>PARKING\<close> cell of the grid, and has a spot type (an absent one counting as
  \<open>STANDARD\<close>) compatible with the preference: \<open>EV\<close> or \<open>STANDARD\<close> for an \<open>EV\<close>
  preference, \<open>DISABLED\<close> for a \<open>DISABLED\<close> one, \<open>STANDARD\<close> or \<open>COMPACT\<close> for a
  \<open>STANDARD\<close> one. When every free parking cell is a \<open>DISABLED\<close> spot, an \<open>EV\<close>
  request returns none.
\<close>

theorem findBestSpot_free_and_compatible:
  "(findBestSpot grid occupiedSpots carType mallDistanceMap score = Inr (Some p) \<longrightarrow>
      p \<notin> occupiedSpots
      \<and> (\<exists>cell. cell_lookup grid p = Some cell \<and> type cell = PARKING
            \<and> (carType = EV \<longrightarrow> cellSpotType cell = EV \<or> cellSpotType cell = STANDARD)
            \<and> (carType = DISABLED \<longrightarrow> cellSpotType cell = DISABLED)
            \<and> (carType = STANDARD \<longrightarrow>
                  cellSpotType cell = STANDARD \<or> cellSpotType cell = COMPACT)))
   \<and> ((\<forall>q cell. cell_lookup grid q = Some cell \<longrightarrow> type cell = PARKING
          \<longrightarrow> q \<notin> occupiedSpots \<longrightarrow> cellSpotType cell = DISABLED)
        \<longrightarrow> findBestSpot grid occupiedSpots EV mallDistanceMap score = Inr None)"
proof (intro conjI impI)
  assume "findBestSpot grid occupiedSpots carType mallDistanceMap score = Inr (Some p)"
  from findBestSpot_sound [OF this] obtain cell where
    "cell_lookup grid p = Some cell" "eligible occupiedSpots carType cell p" by blast
  then show "\<exists>cell. cell_lookup grid p = Some cell \<and> type cell = PARKING
            \<and> (carType = EV \<longrightarrow> cellSpotType cell = EV \<or> cellSpotType cell = STANDARD)
            \<and> (carType = DISABLED \<longrightarrow> cellSpotType cell = DISABLED)
            \<and> (carType = STANDARD \<longrightarrow>
                  cellSpotType cell = STANDARD \<or> cellSpotType cell = COMPACT)"
    and "p \<notin> occupiedSpots"
    by (auto simp: eligible_def isCompatible_def split: if_splits)
next
  assume "\<forall>q cell. cell_lookup grid q = Some cell \<longrightarrow> type cell = PARKING
          \<longrightarrow> q \<notin> occupiedSpots \<longrightarrow> cellSpotType cell = DISABLED"
  then have "\<forall>q cell. cell_lookup grid q = Some cell \<longrightarrow> \<not> eligible occupiedSpots EV cell q"
    by (auto simp: eligible_def isCompatible_def)
  then show "findBestSpot grid occupiedSpots EV mallDistanceMap score = Inr None"
    by (rule findBestSpot_none)
qed

theorem findBestSpot_free_and_compatible_witness:
  "findBestSpot [[spotCell EV, spotCell DISABLED]] {} EV None (\<lambda>q. 0) = Inr (Some (0, 0))
   \<and> (0, 0) \<notin> ({} :: Point set)
   \<and> (\<exists>cell. cell_lookup [[spotCell EV, spotCell DISABLED]] (0, 0) = Some cell
         \<and> type cell = PARKING \<and> (cellSpotType cell = EV \<or> cellSpotType cell = STANDARD))
   \<and> findBestSpot [[spotCell EV, spotCell DISABLED]] {(0, 0)} EV None (\<lambda>q. 0) = Inr None"
proof -
  let ?g = "[[spotCell EV, spotCell DISABLED]]"
  have r: "findBestSpot ?g {} EV None (\<lambda>q. 0) = Inr (Some (0, 0))"
    by (simp add: findBestSpot_def cell_defs isCompatible_def cellSpotType_def)
  have h: "\<forall>q cell. cell_lookup ?g q = Some cell \<longrightarrow> type cell = PARKING
          \<longrightarrow> q \<notin> {(0, 0)} \<longrightarrow> cellSpotType cell = DISABLED"
    by (auto dest!: two_spots_lookup simp: cell_defs cellSpotType_def)
  from findBestSpot_free_and_compatible [of ?g "{}" EV None "\<lambda>q. 0" "(0, 0)"] r
    findBestSpot_free_and_compatible [of ?g "{(0, 0)}" EV None "\<lambda>q. 0" "(0, 0)"] h
  show ?thesis by simp
qed

text \<open>
  Claim C10. For every preference a cell returned by \<open>findBestSpot\<close> is not a
  \<open>RESERVED\<close> spot. A free \<open>PARKING\<close> cell without a recorded spot type counts as
  \<open>STANDARD\<close>, and for a \<open>STANDARD\<close> or an \<open>EV\<close> preference it is the cell returned
  when it has the lowest score.
\<close>

theorem findBestSpot_reserved_and_unlabelled:
  "(findBestSpot grid occupiedSpots carType mallDistanceMap score = Inr (Some p) \<longrightarrow>
      (\<exists>cell. cell_lookup grid p = Some cell \<and> spotType cell \<noteq> Some RESERVED))
   \<and> (cell_lookup grid p = Some cell \<longrightarrow> type cell = PARKING \<longrightarrow> spotType cell = None
        \<longrightarrow> p \<notin> occupiedSpots \<longrightarrow> carType = STANDARD \<or> carType = EV
        \<longrightarrow> cellSpotType cell = STANDARD
            \<and> findBestSpot grid occupiedSpots carType None (\<lambda>q. if q = p then 0 else 1)
                = Inr (Some p))"
proof (intro conjI impI)
  assume "findBestSpot grid occupiedSpots carType mallDistanceMap score = Inr (Some p)"
  from findBestSpot_sound [OF this] obtain c where
    "cell_lookup grid p = Some c" "eligible occupiedSpots carType c p" by blast
  then show "\<exists>cell. cell_lookup grid p = Some cell \<and> spotType cell \<noteq> Some RESERVED"
    by (auto simp: eligible_def isCompatible_def cellSpotType_def split: if_splits)
next
  assume a: "cell_lookup grid p = Some cell" "type cell = PARKING" "spotType cell = None"
    "p \<notin> occupiedSpots" "carType = STANDARD \<or> carType = EV"
  then show "cellSpotType cell = STANDARD" by (simp add: cellSpotType_def)
  from a have "eligible occupiedSpots carType cell p"
    by (auto simp: eligible_def isCompatible_def cellSpotType_def)
  from findBestSpot_preferred [OF a(1) this]
  show "findBestSpot grid occupiedSpots carType None (\<lambda>q. if q = p then 0 else 1)
                = Inr (Some p)" .
qed

theorem findBestSpot_reserved_and_unlabelled_witness:
  "findBestSpot [[spotCell RESERVED, plainCell PARKING]] {} EV None (\<lambda>q. 0) = Inr (Some (1, 0))
   \<and> (\<exists>cell. cell_lookup [[spotCell RESERVED, plainCell PARKING]] (1, 0) = Some cell
         \<and> spotType cell \<noteq> Some RESERVED)
   \<and> cell_lookup [[spotCell RESERVED, plainCell PARKING]] (1, 0) = Some (plainCell PARKING)
   \<and> findBestSpot [[spotCell RESERVED, plainCell PARKING]] {} STANDARD None
        (\<lambda>q. if q = (1, 0) then 0 else 1) = Inr (Some (1, 0))"
proof -
  let ?g = "[[spotCell RESERVED, plainCell PARKING]]"
  have r: "findBestSpot ?g {} EV None (\<lambda>q. 0) = Inr (Some (1, 0))"
    by (simp add: findBestSpot_def cell_defs isCompatible_def cellSpotType_def)
  have l: "cell_lookup ?g (1, 0) = Some (plainCell PARKING)"
    by (simp add: cell_lookup_def js_index_def)
  have t: "type (plainCell PARKING) = PARKING" "spotType (plainCell PARKING) = None"
    "(1, 0) \<notin> ({} :: Point set)"
    by (simp_all add: cell_defs)
  from findBestSpot_reserved_and_unlabelled
         [of ?g "{}" EV None "\<lambda>q. 0" "(1, 0)" "plainCell PARKING"] r
    findBestSpot_reserved_and_unlabelled
         [of ?g "{}" STANDARD None "\<lambda>q. 0" "(1, 0)" "plainCell PARKING"] l t
  show ?thesis by simp
qed

section \<open>Claims about degenerate inputs of the Route Finder\<close>

text \<open>
  Claim C9. When the start cell is a cell of the grid and equals the target, \<open>findPath\<close>
  returns the one-cell route, under either value of the strict-flow flag and whatever the
  cell is: the first dequeue compares the position with the target before any legality
  rule is read.
\<close>

theorem findPath_start_is_target:
  "cell_lookup grid p = Some cell \<Longrightarrow> findPath grid p p strictMode = Inr [p]"
  by (cases grid) (auto simp: findPath_def cell_lookup_def js_index_def split: if_splits)

theorem findPath_start_is_target_witness:
  "cell_lookup [[plainCell WALL, plainCell PATH]] (0, 0) = Some (plainCell WALL)
   \<and> findPath [[plainCell WALL, plainCell PATH]] (0, 0) (0, 0) True = Inr [(0, 0)]
   \<and> cell_lookup [[plainCell WALL, plainCell PATH]] (1, 0) = Some (plainCell PATH)
   \<and> findPath [[plainCell WALL, plainCell PATH]] (1, 0) (1, 0) True = Inr [(1, 0)]"
proof -
  have a: "cell_lookup [[plainCell WALL, plainCell PATH]] (0, 0) = Some (plainCell WALL)"
    by (simp add: cell_lookup_def js_index_def)
  have b: "cell_lookup [[plainCell WALL, plainCell PATH]] (1, 0) = Some (plainCell PATH)"
    by (simp add: cell_lookup_def js_index_def)
  from a b findPath_start_is_target [OF a, of True] findPath_start_is_target [OF b, of True]
  show ?thesis by simp
qed

text \<open>
  Claim C8. On a grid without rows \<open>generateMallDistanceMap\<close> returns the empty map and
  on rows of zero width a map of empty rows, but \<open>findPath\<close> raises: \<open>grid[0].length\<close>
  reads a property of \<open>undefined\<close> on a grid without rows, and on rows of zero width
  the start cell is \<open>undefined\<close> when its type is read. Only for a start equal to the
  target does \<open>findPath\<close> return there, and then the one-cell route, not the empty one.
\<close>

theorem zero_sized_grid_results:
  "generateMallDistanceMap [] = Inr []
   \<and> generateMallDistanceMap [[], []] = Inr [[], []]
   \<and> findPath [] (0, 0) (1, 0) True = Inl TypeError
   \<and> findPath [] (0, 0) (1, 0) False = Inl TypeError
   \<and> findPath [[]] (0, 0) (1, 0) True = Inl TypeError
   \<and> findPath [[]] (0, 0) (0, 0) True = Inr [(0, 0)]"
  by (simp add: generateMallDistanceMap_def findPath_def cell_lookup_def js_index_def)

section \<open>Claims about the Simulation Clock\<close>

text \<open>
  A lot whose only spot is walled off from its entry, and a lot whose exit is walled off
  from its spot.
\<close>

definition blockedLot :: Grid where
  "blockedLot = [[plainCell ENTRY, plainCell WALL, plainCell PARKING]]"

definition blockedExit :: Grid where
  "blockedExit = [[plainCell PARKING, plainCell WALL, plainCell EXIT]]"

definition arrivingCar :: Car where
  "arrivingCar = \<lparr>car_x = 0, car_y = 0, car_state = entering, car_target = Some (2, 0),
                  car_parkingTime = 0, car_type = STANDARD\<rparr>"

definition leavingCar :: Car where
  "leavingCar = \<lparr>car_x = 0, car_y = 0, car_state = exiting, car_target = Some (2, 0),
                 car_parkingTime = 0, car_type = STANDARD\<rparr>"

lemmas sim_defs = stepCar_def tick_def getEntryPoints_def getExitPoint_def findBestSpot_def
  isCompatible_def cellSpotType_def

text \<open>
  Claim C3. The code does not keep a vehicle without a route in place. The tick tests
  \<open>path.length > 1\<close> and treats every other route, the empty one included, as an
  arrival: an entering vehicle whose search returns the empty route becomes a parking
  vehicle where it stands (and is counted in \<open>totalCars\<close>), and an exiting one is dropped
  from the active set.
\<close>

theorem no_route_is_taken_for_arrival:
  "findPath blockedLot (0, 0) (2, 0) True = Inr []
   \<and> stepCar blockedLot True None 30 arrivingCar {(2, 0)}
       = Inr (Some (arrivingCar\<lparr>car_state := parking, car_parkingTime := 30\<rparr>), {(2, 0)}, 1)
   \<and> findPath blockedExit (0, 0) (2, 0) True = Inr []
   \<and> stepCar blockedExit True (Some (2, 0)) 30 leavingCar {} = Inr (None, {}, 0)"
  by (simp add: stepCar_def blockedLot_def blockedExit_def arrivingCar_def leavingCar_def
        path_defs cell_defs)

text \<open>
  Claim C4. Three ticks from the empty state on \<open>blockedLot\<close>: the first spawns a
  vehicle and reserves the spot \<open>(2, 0)\<close>; in the second the route search fails and the
  vehicle starts parking on the entry cell; in the third the parking branch adds the
  vehicle's own cell \<open>(0, 0)\<close>. The occupied set then has two members for one parking
  vehicle and no entering one, and the reservation of \<open>(2, 0)\<close> is never released.
\<close>

theorem occupancy_count_broken_after_failed_route:
  "tick blockedLot True None (\<lambda>i. 30)
     (Some \<lparr>entryIndex = 0, drawnType = STANDARD, drawnScore = (\<lambda>q. 0)\<rparr>)
     \<lparr>st_cars = [], st_occupiedSpots = {}, st_totalCars = 0\<rparr>
     = Inr \<lparr>st_cars = [arrivingCar], st_occupiedSpots = {(2, 0)}, st_totalCars = 0\<rparr>
   \<and> tick blockedLot True None (\<lambda>i. 30) None
       \<lparr>st_cars = [arrivingCar], st_occupiedSpots = {(2, 0)}, st_totalCars = 0\<rparr>
     = Inr \<lparr>st_cars = [arrivingCar\<lparr>car_state := parking, car_parkingTime := 30\<rparr>],
            st_occupiedSpots = {(2, 0)}, st_totalCars = 1\<rparr>
   \<and> tick blockedLot True None (\<lambda>i. 30) None
       \<lparr>st_cars = [arrivingCar\<lparr>car_state := parking, car_parkingTime := 30\<rparr>],
        st_occupiedSpots = {(2, 0)}, st_totalCars = 1\<rparr>
     = Inr \<lparr>st_cars = [arrivingCar\<lparr>car_state := parking, car_parkingTime := 29\<rparr>],
            st_occupiedSpots = {(0, 0), (2, 0)}, st_totalCars = 1\<rparr>
   \<and> card {(0 :: int, 0 :: int), (2, 0)} = 2
   \<and> length (filter (\<lambda>c. car_state c = parking \<or> car_state c = entering)
         [arrivingCar\<lparr>car_state := parking, car_parkingTime := 29\<rparr>]) = 1"
  by (simp add: sim_defs blockedLot_def arrivingCar_def path_defs cell_defs)

section \<open>Claims about the Route Finder\<close>

text \<open>A one-way lane from an entry to a spot, and a lane that starts on an unflagged cell.\<close>

definition lane :: Grid where
  "lane = [[plainCell ENTRY, flowCell 90, plainCell PARKING]]"

definition unflaggedStart :: Grid where
  "unflaggedStart = [[plainCell PATH, flowCell 90, plainCell EXIT]]"

lemma lane_route: "findPath lane (0, 0) (2, 0) True = Inr [(0, 0), (1, 0), (2, 0)]"
  by (simp add: lane_def path_defs cell_defs)

lemma blockedLot_route: "findPath blockedLot (0, 0) (2, 0) True = Inr []"
  by (simp add: blockedLot_def path_defs cell_defs)

text \<open>
  Claim C5. Under strict flow, every cell of a returned route after the first is a cell of
  the grid and, when it is a \<open>PATH\<close> cell, has an active flow whose rotation is not
  opposite (180 degrees apart) to the direction of the move that enters it. The first
  cell is exempt: a route may start on, and leave, a \<open>PATH\<close> cell without flow.
\<close>

theorem strict_route_respects_flow:
  assumes "findPath grid start target True = Inr path"
  shows "\<forall>i. 0 < i \<and> i < length path \<longrightarrow>
           (\<exists>c. cell_lookup grid (path ! i) = Some c
              \<and> (type c = PATH \<longrightarrow> hasFlow c
                   \<and> (\<exists>d. travelDeg (path ! (i - 1)) (path ! i) = Some d
                         \<and> \<bar>rotation c - d\<bar> \<noteq> 180)))"
proof (intro allI impI)
  fix i assume i: "0 < i \<and> i < length path"
  then have ne: "path \<noteq> []" by auto
  from findPath_sound [OF assms ne]
  have "successively (acceptedMove grid (gridWidth grid) (gridHeight grid) target True) path"
    by (simp add: acceptedRoute_def)
  from successively_nth [OF this, of "i - 1"] i
  have "acceptedMove grid (gridWidth grid) (gridHeight grid) target True
          (path ! (i - 1)) (path ! i)" by simp
  from acceptedMove_strict [OF this]
  show "\<exists>c. cell_lookup grid (path ! i) = Some c
              \<and> (type c = PATH \<longrightarrow> hasFlow c
                   \<and> (\<exists>d. travelDeg (path ! (i - 1)) (path ! i) = Some d
                         \<and> \<bar>rotation c - d\<bar> \<noteq> 180))" .
qed

theorem strict_route_respects_flow_witness:
  "findPath unflaggedStart (0, 0) (2, 0) True = Inr [(0, 0), (1, 0), (2, 0)]
   \<and> cell_lookup unflaggedStart (0, 0) = Some (plainCell PATH)
   \<and> \<not> hasFlow (plainCell PATH)
   \<and> (\<exists>c. cell_lookup unflaggedStart (1, 0) = Some c \<and> type c = PATH \<and> hasFlow c
         \<and> (\<exists>d. travelDeg (0, 0) (1, 0) = Some d \<and> \<bar>rotation c - d\<bar> \<noteq> 180))"
proof -
  have r: "findPath unflaggedStart (0, 0) (2, 0) True = Inr [(0, 0), (1, 0), (2, 0)]"
    by (simp add: unflaggedStart_def path_defs cell_defs)
  have c: "cell_lookup unflaggedStart (1, 0) = Some (flowCell 90)"
    "cell_lookup unflaggedStart (0, 0) = Some (plainCell PATH)"
    by (simp_all add: unflaggedStart_def cell_lookup_def js_index_def)
  have t: "type (flowCell 90) = PATH" "\<not> hasFlow (plainCell PATH)" by (simp_all add: cell_defs)
  from strict_route_respects_flow [OF r, rule_format, of 1] c t r
  show ?thesis by simp
qed

text \<open>
  Claim C6, as stated, fails for \<open>strictFlow = false\<close>: the one-way check of line 118
  is guarded by \<open>strictMode\<close>. Below, a move east into a \<open>PATH\<close> cell whose flow points
  west is accepted, and the returned route ends with that step.
\<close>

theorem against_flow_entered_when_not_strict:
  "findPath [[plainCell ENTRY, flowCell 270]] (0, 0) (1, 0) False = Inr [(0, 0), (1, 0)]
   \<and> tryMove [[plainCell ENTRY, flowCell 270]] 2 1 (1, 0) False (plainCell ENTRY) (0, 0)
        \<lparr>dx = 1, dy = 0, deg = 90, edge = East, oppEdge = West\<rparr> = Inr (Some (1, 0))
   \<and> cell_lookup [[plainCell ENTRY, flowCell 270]] (1, 0) = Some (flowCell 270)
   \<and> type (flowCell 270) = PATH \<and> hasFlow (flowCell 270)
   \<and> travelDeg (0, 0) (1, 0) = Some 90
   \<and> \<bar>rotation (flowCell 270) - 90\<bar> = 180"
  by (simp add: path_defs cell_defs travelDeg_def)

text \<open>
  Claim C6, amended. Under \<open>strictFlow = true\<close>, a candidate move whose destination is a
  \<open>PATH\<close> cell with an active flow exactly opposite to the direction of travel is
  rejected, and no route returned under \<open>strictFlow = true\<close> contains a step entering a
  flowed \<open>PATH\<close> cell against its direction.
\<close>

theorem against_flow_rejected_when_strict:
  "(cell_lookup grid (fst pos + dx dir, snd pos + dy dir) = Some c \<longrightarrow> type c = PATH
      \<longrightarrow> hasFlow c \<longrightarrow> \<bar>rotation c - deg dir\<bar> = 180
      \<longrightarrow> tryMove grid width height target True currentCell pos dir = Inr None)
   \<and> (findPath grid start target True = Inr path \<longrightarrow>
        (\<forall>i c d. Suc i < length path \<longrightarrow> cell_lookup grid (path ! Suc i) = Some c
           \<longrightarrow> type c = PATH \<longrightarrow> hasFlow c
           \<longrightarrow> travelDeg (path ! i) (path ! Suc i) = Some d \<longrightarrow> \<bar>rotation c - d\<bar> \<noteq> 180))"
proof (intro conjI impI allI)
  assume "cell_lookup grid (fst pos + dx dir, snd pos + dy dir) = Some c" "type c = PATH"
    "hasFlow c" "\<bar>rotation c - deg dir\<bar> = 180"
  then show "tryMove grid width height target True currentCell pos dir = Inr None"
    by (simp add: tryMove_def Let_def)
next
  fix i c d
  assume fp: "findPath grid start target True = Inr path" and i: "Suc i < length path"
    and c: "cell_lookup grid (path ! Suc i) = Some c" "type c = PATH" "hasFlow c"
    and d: "travelDeg (path ! i) (path ! Suc i) = Some d"
  from i have ne: "path \<noteq> []" by auto
  from findPath_sound [OF fp ne]
  have "successively (acceptedMove grid (gridWidth grid) (gridHeight grid) target True) path"
    by (simp add: acceptedRoute_def)
  from successively_nth [OF this i] acceptedMove_strict c d
  show "\<bar>rotation c - d\<bar> \<noteq> 180" by fastforce
qed

theorem against_flow_rejected_when_strict_witness:
  "cell_lookup [[plainCell ENTRY, flowCell 270]] (0 + 1, 0 + 0) = Some (flowCell 270)
   \<and> tryMove [[plainCell ENTRY, flowCell 270]] 2 1 (1, 0) True (plainCell ENTRY) (0, 0)
        \<lparr>dx = 1, dy = 0, deg = 90, edge = East, oppEdge = West\<rparr> = Inr None
   \<and> findPath [[plainCell ENTRY, flowCell 270]] (0, 0) (1, 0) True = Inr []
   \<and> findPath unflaggedStart (0, 0) (2, 0) True = Inr [(0, 0), (1, 0), (2, 0)]
   \<and> \<bar>rotation (flowCell 90) - 90\<bar> \<noteq> 180"
proof -
  let ?g = "[[plainCell ENTRY, flowCell 270]]"
  let ?east = "\<lparr>dx = 1, dy = 0, deg = 90, edge = East, oppEdge = West\<rparr>"
  have l: "cell_lookup ?g (fst (0, 0) + dx ?east, snd (0, 0) + dy ?east) = Some (flowCell 270)"
    by (simp add: cell_lookup_def js_index_def)
  have f: "type (flowCell 270) = PATH" "hasFlow (flowCell 270)"
    "\<bar>rotation (flowCell 270) - deg ?east\<bar> = 180"
    by (simp_all add: cell_defs)
  have e: "findPath ?g (0, 0) (1, 0) True = Inr []"
    by (simp add: path_defs cell_defs)
  have r: "findPath unflaggedStart (0, 0) (2, 0) True = Inr [(0, 0), (1, 0), (2, 0)]"
    by (simp add: unflaggedStart_def path_defs cell_defs)
  have c: "cell_lookup unflaggedStart ([(0, 0), (1, 0), (2, 0)] ! Suc 0) = Some (flowCell 90)"
    "type (flowCell 90) = PATH" "hasFlow (flowCell 90)"
    "travelDeg ([(0, 0), (1, 0), (2, 0)] ! 0) ([(0, 0), (1, 0), (2, 0)] ! Suc 0) = Some 90"
    by (simp_all add: unflaggedStart_def cell_lookup_def js_index_def cell_defs travelDeg_def
          directions_def)
  have n: "Suc 0 < length [(0 :: int, 0 :: int), (1, 0), (2, 0)]" by simp
  from against_flow_rejected_when_strict
         [where grid = ?g and pos = "(0, 0)" and dir = ?east and c = "flowCell 270"
            and width = 2 and height = 1 and target = "(1, 0)"
            and currentCell = "plainCell ENTRY"]
  have 1: "tryMove ?g 2 1 (1, 0) True (plainCell ENTRY) (0, 0) ?east = Inr None"
    using l f by blast
  from against_flow_rejected_when_strict
         [where grid = unflaggedStart and start = "(0, 0)" and target = "(2, 0)"
            and path = "[(0, 0), (1, 0), (2, 0)]"]
  have 2: "\<bar>rotation (flowCell 90) - 90\<bar> \<noteq> 180"
    using r c n by blast
  from l 1 e r 2 show ?thesis by simp
qed

section \<open>Distance Field Builder: walks to a mall entrance and the relaxation invariant\<close>

text \<open>
  The reference the distance field is compared with, in the spec's words: a walk is a
  sequence of orthogonally adjacent cells of the grid, none of them a \<open>WALL\<close>, that
  starts on a \<open>MALL\<close> cell; a cell is \<open>k\<close> hops from a mall entrance when a walk of
  \<open>k\<close> moves ends on it. A \<open>WALL\<close> cell ends no walk, so it is unreachable itself.
\<close>

definition isMall :: "Grid \<Rightarrow> Point \<Rightarrow> bool" where
  "isMall grid p = (case cell_lookup grid p of None \<Rightarrow> False | Some c \<Rightarrow> type c = MALL)"

definition nonWall :: "Grid \<Rightarrow> Point \<Rightarrow> bool" where
  "nonWall grid p = (case cell_lookup grid p of None \<Rightarrow> False | Some c \<Rightarrow> type c \<noteq> WALL)"

definition mallWalk :: "Grid \<Rightarrow> Point list \<Rightarrow> bool" where
  "mallWalk grid ps =
     (ps \<noteq> [] \<and> isMall grid (hd ps) \<and> (\<forall>p \<in> set ps. nonWall grid p)
      \<and> successively adjacent ps)"

definition hopsToMall :: "Grid \<Rightarrow> Point \<Rightarrow> nat \<Rightarrow> bool" where
  "hopsToMall grid p k = (\<exists>ps. mallWalk grid ps \<and> last ps = p \<and> length ps = Suc k)"

text \<open>
  Proof devices for the distance field: a field of the grid's dimensions without holes, the
  assignment \<open>distMap[y][x] = v\<close> inside the field, and the entry read as a distance.
\<close>

definition shape :: "DistMap \<Rightarrow> int \<Rightarrow> int \<Rightarrow> bool" where
  "shape dm w h =
     (int (length dm) = h \<and> (\<forall>row \<in> set dm. int (length row) = w \<and> None \<notin> set row))"

definition dist_update :: "DistMap \<Rightarrow> Point \<Rightarrow> enat \<Rightarrow> DistMap" where
  "dist_update dm p v = dm[nat (snd p) := (dm ! nat (snd p))[nat (fst p) := Some v]]"

definition dv :: "DistMap \<Rightarrow> Point \<Rightarrow> enat" where
  "dv dm p = (case dist_lookup dm p of Inr (Some v) \<Rightarrow> v | _ \<Rightarrow> \<infinity>)"

lemma box_iff: "p \<in> box w h \<longleftrightarrow> 0 \<le> fst p \<and> fst p < w \<and> 0 \<le> snd p \<and> snd p < h"
  by (cases p) (auto simp: box_def)

lemma shape_row:
  assumes "shape dm w h" and "p \<in> box w h"
  shows "nat (snd p) < length dm" and "nat (fst p) < length (dm ! nat (snd p))"
    and "dm ! nat (snd p) ! nat (fst p) \<noteq> None"
proof -
  from assms show y: "nat (snd p) < length dm" by (auto simp: shape_def box_iff)
  then have "dm ! nat (snd p) \<in> set dm" by simp
  with assms(1) have r: "int (length (dm ! nat (snd p))) = w" "None \<notin> set (dm ! nat (snd p))"
    by (auto simp: shape_def)
  with assms(2) show x: "nat (fst p) < length (dm ! nat (snd p))" by (auto simp: box_iff)
  then have "dm ! nat (snd p) ! nat (fst p) \<in> set (dm ! nat (snd p))" by simp
  with r(2) show "dm ! nat (snd p) ! nat (fst p) \<noteq> None" by metis
qed

lemma js_index_nat: "0 \<le> i \<Longrightarrow> nat i < length xs \<Longrightarrow> js_index xs i = Some (xs ! nat i)"
  by (simp add: js_index_def nat_less_iff)

lemma dist_lookup_nth:
  "0 \<le> fst p \<Longrightarrow> 0 \<le> snd p \<Longrightarrow> nat (snd p) < length dm
   \<Longrightarrow> nat (fst p) < length (dm ! nat (snd p))
   \<Longrightarrow> dist_lookup dm p = Inr (dm ! nat (snd p) ! nat (fst p))"
  by (simp add: dist_lookup_def js_index_nat)

lemma shape_lookup:
  assumes "shape dm w h" and "p \<in> box w h"
  shows "dist_lookup dm p = Inr (Some (dv dm p))"
proof -
  from assms(2) have "0 \<le> fst p" "0 \<le> snd p" by (auto simp: box_iff)
  from dist_lookup_nth [OF this shape_row(1,2) [OF assms]] shape_row(3) [OF assms]
  obtain v where "dist_lookup dm p = Inr (Some v)" by auto
  then show ?thesis by (simp add: dv_def)
qed

lemma shape_update:
  assumes "shape dm w h" and "p \<in> box w h"
  shows "shape (dist_update dm p v) w h"
proof -
  let ?row = "(dm ! nat (snd p))[nat (fst p) := Some v]"
  from shape_row(1) [OF assms] have "dm ! nat (snd p) \<in> set dm" by simp
  with assms(1) have r: "int (length (dm ! nat (snd p))) = w" "None \<notin> set (dm ! nat (snd p))"
    by (auto simp: shape_def)
  have "set ?row \<subseteq> insert (Some v) (set (dm ! nat (snd p)))"
    by (rule set_update_subset_insert)
  with r have ok: "int (length ?row) = w \<and> None \<notin> set ?row" by auto
  have "set (dm[nat (snd p) := ?row]) \<subseteq> insert ?row (set dm)"
    by (rule set_update_subset_insert)
  with ok assms(1) show ?thesis
    unfolding shape_def dist_update_def by auto
qed

lemma dv_update:
  assumes "shape dm w h" and "p \<in> box w h" and "q \<in> box w h"
  shows "dv (dist_update dm p v) q = (if q = p then v else dv dm q)"
proof -
  from shape_row [OF assms(1,2)] have py: "nat (snd p) < length dm"
    and px: "nat (fst p) < length (dm ! nat (snd p))" by auto
  from shape_row [OF assms(1,3)] have qy: "nat (snd q) < length dm"
    and qx: "nat (fst q) < length (dm ! nat (snd q))" by auto
  from assms(2,3) have nn: "0 \<le> fst p" "0 \<le> snd p" "0 \<le> fst q" "0 \<le> snd q"
    by (auto simp: box_iff)
  have uy: "nat (snd q) < length (dist_update dm p v)"
    using qy by (simp add: dist_update_def)
  show ?thesis
  proof (cases "q = p")
    case True
    have "dist_update dm p v ! nat (snd p) = (dm ! nat (snd p))[nat (fst p) := Some v]"
      using py by (simp add: dist_update_def)
    with px py nn True dist_lookup_nth [of q "dist_update dm p v"] uy show ?thesis
      by (simp add: dv_def)
  next
    case False
    with nn have ne: "nat (snd q) \<noteq> nat (snd p) \<or> nat (fst q) \<noteq> nat (fst p)"
      by (auto simp: prod_eq_iff)
    have len: "length (dist_update dm p v ! nat (snd q)) = length (dm ! nat (snd q))"
      using py qy by (cases "nat (snd q) = nat (snd p)") (simp_all add: dist_update_def)
    have "dist_update dm p v ! nat (snd q) ! nat (fst q) = dm ! nat (snd q) ! nat (fst q)"
      using py px qy qx ne
      by (cases "nat (snd q) = nat (snd p)") (auto simp: dist_update_def)
    with dist_lookup_nth [of q "dist_update dm p v"] dist_lookup_nth [of q dm]
      nn uy qy qx len False
    show ?thesis by (simp add: dv_def)
  qed
qed

text \<open>
  The invariant of the relaxation loop, with \<open>E\<close> the cells still to expand: every finite
  entry is the length of a walk, \<open>MALL\<close> cells hold 0, and a cell outside \<open>E\<close> has every
  adjacent cell that is not a \<open>WALL\<close> within one hop of its own entry.
\<close>

definition mallInv :: "Grid \<Rightarrow> int \<Rightarrow> int \<Rightarrow> Point set \<Rightarrow> DistMap \<Rightarrow> bool" where
  "mallInv grid w h E dm =
     (shape dm w h
      \<and> (\<forall>p \<in> box w h. \<forall>k. dv dm p = enat k \<longrightarrow> hopsToMall grid p k)
      \<and> (\<forall>p \<in> box w h. isMall grid p \<longrightarrow> dv dm p = 0)
      \<and> (\<forall>p \<in> box w h - E. \<forall>n \<in> box w h. adjacent p n \<longrightarrow> nonWall grid n
            \<longrightarrow> dv dm n \<le> dv dm p + 1))"

lemma mallDir_adjacent:
  "dir \<in> set mallDirections \<Longrightarrow> adjacent pos (fst pos + fst dir, snd pos + snd dir)"
  by (auto simp: mallDirections_def adjacent_def)

lemma adjacent_mallDir:
  assumes "adjacent p n"
  shows "\<exists>dir \<in> set mallDirections. n = (fst p + fst dir, snd p + snd dir)"
proof -
  from assms have "(fst n - fst p, snd n - snd p) \<in> set mallDirections"
    unfolding adjacent_def mallDirections_def by (simp, linarith)
  moreover have "n = (fst p + (fst n - fst p), snd p + (snd n - snd p))" by simp
  ultimately show ?thesis by (metis fst_conv snd_conv)
qed

lemma adjacent_neq: "adjacent p n \<Longrightarrow> n \<noteq> p"
  by (auto simp: adjacent_def)

lemma isMall_nonWall: "isMall grid p \<Longrightarrow> nonWall grid p"
  by (auto simp: isMall_def nonWall_def split: option.splits)

lemma hopsToMall_zero: "isMall grid p \<Longrightarrow> hopsToMall grid p 0"
proof -
  assume m: "isMall grid p"
  then have "mallWalk grid [p]" by (simp add: mallWalk_def isMall_nonWall)
  then have "mallWalk grid [p] \<and> last [p] = p \<and> length [p] = Suc 0" by simp
  then show ?thesis unfolding hopsToMall_def by blast
qed

lemma hopsToMall_step:
  assumes "hopsToMall grid p k" and "adjacent p n" and "nonWall grid n"
  shows "hopsToMall grid n (Suc k)"
proof -
  from assms(1) obtain ps where ps: "mallWalk grid ps" "last ps = p" "length ps = Suc k"
    unfolding hopsToMall_def by blast
  then have ne: "ps \<noteq> []" by (simp add: mallWalk_def)
  with ps assms(2,3) have "mallWalk grid (ps @ [n])"
    by (auto simp: mallWalk_def successively_append_iff)
  moreover have "last (ps @ [n]) = n" "length (ps @ [n]) = Suc (Suc k)" using ps by simp_all
  ultimately show ?thesis unfolding hopsToMall_def by blast
qed

lemma relax_inv:
  assumes inv: "mallInv grid w h (insert pos (set q)) dm"
    and qb: "set q \<subseteq> box w h" and pb: "pos \<in> box w h"
    and gd: "\<forall>p. p \<in> box w h \<longleftrightarrow> cell_lookup grid p \<noteq> None"
    and dir: "dir \<in> set mallDirections"
  shows "\<exists>dm' q'. relax grid w h (Some (dv dm pos)) pos dir (dm, q) = Inr (dm', q')
     \<and> mallInv grid w h (insert pos (set q')) dm' \<and> set q' \<subseteq> box w h
     \<and> dv dm' pos = dv dm pos
     \<and> (\<forall>p \<in> box w h. dv dm' p \<le> dv dm p)
     \<and> ((fst pos + fst dir, snd pos + snd dir) \<in> box w h
          \<longrightarrow> nonWall grid (fst pos + fst dir, snd pos + snd dir)
          \<longrightarrow> dv dm' (fst pos + fst dir, snd pos + snd dir) \<le> dv dm pos + 1)"
proof -
  let ?n = "(fst pos + fst dir, snd pos + snd dir)"
  let ?c = "dv dm pos"
  let ?R = "relax grid w h (Some ?c) pos dir (dm, q)"
  note I = inv [unfolded mallInv_def]
  from I have sh: "shape dm w h" by blast
  from I have snd: "\<forall>p \<in> box w h. \<forall>k. dv dm p = enat k \<longrightarrow> hopsToMall grid p k" by blast
  from I have mall: "\<forall>p \<in> box w h. isMall grid p \<longrightarrow> dv dm p = 0" by blast
  from I have cl: "\<forall>p \<in> box w h - insert pos (set q). \<forall>n \<in> box w h. adjacent p n
        \<longrightarrow> nonWall grid n \<longrightarrow> dv dm n \<le> dv dm p + 1" by blast
  have same: ?thesis
    if "?R = Inr (dm, q)" "?n \<in> box w h \<longrightarrow> nonWall grid ?n \<longrightarrow> dv dm ?n \<le> ?c + 1"
    using that inv qb by auto
  show ?thesis
  proof (cases "?n \<in> box w h")
    case False
    then have "?R = Inr (dm, q)" by (auto simp: relax_def Let_def box_iff)
    with False show ?thesis by (intro same) simp_all
  next
    case nb: True
    then have bnds: "0 \<le> fst pos + fst dir \<and> fst pos + fst dir < w
        \<and> 0 \<le> snd pos + snd dir \<and> snd pos + snd dir < h"
      by (simp add: box_iff)
    from nb gd obtain cell where cell: "cell_lookup grid ?n = Some cell" by auto
    from shape_lookup [OF sh nb] have lk: "dist_lookup dm ?n = Inr (Some (dv dm ?n))" .
    show ?thesis
    proof (cases "type cell = WALL")
      case True
      with cell bnds have "?R = Inr (dm, q)" by (simp add: relax_def Let_def)
      moreover from True cell have "\<not> nonWall grid ?n" by (simp add: nonWall_def)
      ultimately show ?thesis by (intro same) simp_all
    next
      case nw: False
      then have nwn: "nonWall grid ?n" using cell by (simp add: nonWall_def)
      show ?thesis
      proof (cases "dv dm ?n > ?c + 1")
        case False
        with cell bnds nw lk have "?R = Inr (dm, q)" by (simp add: relax_def Let_def)
        moreover from False have "dv dm ?n \<le> ?c + 1" by simp
        ultimately show ?thesis by (intro same) simp_all
      next
        case gt: True
        let ?dm' = "dist_update dm ?n (?c + 1)"
        from gt cell bnds nw lk have R: "?R = Inr (?dm', q @ [?n])"
          by (simp add: relax_def Let_def dist_update_def)
        from mallDir_adjacent [OF dir] have adj: "adjacent pos ?n" .
        then have npos: "?n \<noteq> pos" by (rule adjacent_neq)
        have val: "dv ?dm' p = (if p = ?n then ?c + 1 else dv dm p)" if "p \<in> box w h" for p
          using dv_update [OF sh nb that] .
        have mono: "\<forall>p \<in> box w h. dv ?dm' p \<le> dv dm p"
          using val gt by auto
        have 1: "shape ?dm' w h" using shape_update [OF sh nb] .
        have 2: "\<forall>p \<in> box w h. \<forall>k. dv ?dm' p = enat k \<longrightarrow> hopsToMall grid p k"
        proof (intro ballI allI impI)
          fix p k assume p: "p \<in> box w h" and k: "dv ?dm' p = enat k"
          show "hopsToMall grid p k"
          proof (cases "p = ?n")
            case True
            with k val [OF p] have "?c + 1 = enat k" by simp
            then obtain j where j: "?c = enat j" "k = Suc j"
              by (cases ?c) (auto simp: one_enat_def)
            with snd pb have "hopsToMall grid pos j" by blast
            from hopsToMall_step [OF this adj nwn] True j show ?thesis by simp
          next
            case False
            with k val [OF p] snd p show ?thesis by simp
          qed
        qed
        have 3: "\<forall>p \<in> box w h. isMall grid p \<longrightarrow> dv ?dm' p = 0"
        proof (intro ballI impI)
          fix p assume p: "p \<in> box w h" and m: "isMall grid p"
          with mall have z: "dv dm p = 0" by blast
          with gt have "p \<noteq> ?n" by auto
          with val [OF p] z show "dv ?dm' p = 0" by simp
        qed
        have 4: "\<forall>p \<in> box w h - insert pos (set (q @ [?n])). \<forall>n \<in> box w h. adjacent p n
            \<longrightarrow> nonWall grid n \<longrightarrow> dv ?dm' n \<le> dv ?dm' p + 1"
        proof (intro ballI impI)
          fix p n assume p: "p \<in> box w h - insert pos (set (q @ [?n]))" and n: "n \<in> box w h"
            and a: "adjacent p n" "nonWall grid n"
          from p have pn: "p \<noteq> ?n" and pb': "p \<in> box w h" and pe: "p \<in> box w h - insert pos (set q)"
            by auto
          from cl pe n a have "dv dm n \<le> dv dm p + 1" by blast
          moreover from mono n have "dv ?dm' n \<le> dv dm n" by blast
          moreover from val [OF pb'] pn have "dv ?dm' p = dv dm p" by simp
          ultimately show "dv ?dm' n \<le> dv ?dm' p + 1" by simp
        qed
        from 1 2 3 4 have inv': "mallInv grid w h (insert pos (set (q @ [?n]))) ?dm'"
          unfolding mallInv_def by blast
        have "dv ?dm' pos = ?c" using val [OF pb] npos by simp
        moreover have "dv ?dm' ?n \<le> ?c + 1" using val [OF nb] by simp
        moreover have "set (q @ [?n]) \<subseteq> box w h" using qb nb by simp
        ultimately show ?thesis using R inv' mono by blast
      qed
    qed
  qed
qed

lemma relaxAll_inv:
  assumes pb: "pos \<in> box w h"
    and gd: "\<forall>p. p \<in> box w h \<longleftrightarrow> cell_lookup grid p \<noteq> None"
  shows "mallInv grid w h (insert pos (set q)) dm \<Longrightarrow> set q \<subseteq> box w h
     \<Longrightarrow> set dirs \<subseteq> set mallDirections
     \<Longrightarrow> \<exists>dm' q'. relaxAll grid w h (Some (dv dm pos)) pos dirs (dm, q) = Inr (dm', q')
          \<and> mallInv grid w h (insert pos (set q')) dm' \<and> set q' \<subseteq> box w h
          \<and> dv dm' pos = dv dm pos
          \<and> (\<forall>p \<in> box w h. dv dm' p \<le> dv dm p)
          \<and> (\<forall>dir \<in> set dirs. (fst pos + fst dir, snd pos + snd dir) \<in> box w h
                \<longrightarrow> nonWall grid (fst pos + fst dir, snd pos + snd dir)
                \<longrightarrow> dv dm' (fst pos + fst dir, snd pos + snd dir) \<le> dv dm pos + 1)"
proof (induction dirs arbitrary: dm q)
  case Nil
  then show ?case by simp
next
  case (Cons dir dirs)
  from Cons.prems(3) have d: "dir \<in> set mallDirections" and ds: "set dirs \<subseteq> set mallDirections"
    by auto
  from relax_inv [OF Cons.prems(1,2) pb gd d] obtain dm1 q1 where
    r: "relax grid w h (Some (dv dm pos)) pos dir (dm, q) = Inr (dm1, q1)"
    and i1: "mallInv grid w h (insert pos (set q1)) dm1" and b1: "set q1 \<subseteq> box w h"
    and p1: "dv dm1 pos = dv dm pos"
    and m1: "\<forall>p \<in> box w h. dv dm1 p \<le> dv dm p"
    and n1: "(fst pos + fst dir, snd pos + snd dir) \<in> box w h
          \<longrightarrow> nonWall grid (fst pos + fst dir, snd pos + snd dir)
          \<longrightarrow> dv dm1 (fst pos + fst dir, snd pos + snd dir) \<le> dv dm pos + 1"
    by blast
  from Cons.IH [OF i1 b1 ds] p1 obtain dm' q' where
    a: "relaxAll grid w h (Some (dv dm pos)) pos dirs (dm1, q1) = Inr (dm', q')"
    and i2: "mallInv grid w h (insert pos (set q')) dm'" and b2: "set q' \<subseteq> box w h"
    and p2: "dv dm' pos = dv dm pos"
    and m2: "\<forall>p \<in> box w h. dv dm' p \<le> dv dm1 p"
    and n2: "\<forall>dir \<in> set dirs. (fst pos + fst dir, snd pos + snd dir) \<in> box w h
                \<longrightarrow> nonWall grid (fst pos + fst dir, snd pos + snd dir)
                \<longrightarrow> dv dm' (fst pos + fst dir, snd pos + snd dir) \<le> dv dm pos + 1"
    by auto
  have res: "relaxAll grid w h (Some (dv dm pos)) pos (dir # dirs) (dm, q) = Inr (dm', q')"
    using r a by simp
  have mono: "\<forall>p \<in> box w h. dv dm' p \<le> dv dm p"
    using m1 m2 by (meson order_trans)
  have "(fst pos + fst dir, snd pos + snd dir) \<in> box w h
          \<longrightarrow> nonWall grid (fst pos + fst dir, snd pos + snd dir)
          \<longrightarrow> dv dm' (fst pos + fst dir, snd pos + snd dir) \<le> dv dm pos + 1"
    using n1 m2 by (meson order_trans)
  with n2 have nb: "\<forall>d \<in> set (dir # dirs). (fst pos + fst d, snd pos + snd d) \<in> box w h
                \<longrightarrow> nonWall grid (fst pos + fst d, snd pos + snd d)
                \<longrightarrow> dv dm' (fst pos + fst d, snd pos + snd d) \<le> dv dm pos + 1"
    by simp
  from res i2 b2 p2 mono nb show ?case by blast
qed

lemma mallInv_settle:
  assumes inv: "mallInv grid w h (insert pos E) dm"
    and nb: "\<forall>n \<in> box w h. adjacent pos n \<longrightarrow> nonWall grid n \<longrightarrow> dv dm n \<le> dv dm pos + 1"
  shows "mallInv grid w h E dm"
proof -
  note I = inv [unfolded mallInv_def]
  from I have 1: "shape dm w h" by blast
  from I have 2: "\<forall>p \<in> box w h. \<forall>k. dv dm p = enat k \<longrightarrow> hopsToMall grid p k" by blast
  from I have 3: "\<forall>p \<in> box w h. isMall grid p \<longrightarrow> dv dm p = 0" by blast
  from I have cl: "\<forall>p \<in> box w h - insert pos E. \<forall>n \<in> box w h. adjacent p n
        \<longrightarrow> nonWall grid n \<longrightarrow> dv dm n \<le> dv dm p + 1" by blast
  have 4: "\<forall>p \<in> box w h - E. \<forall>n \<in> box w h. adjacent p n
        \<longrightarrow> nonWall grid n \<longrightarrow> dv dm n \<le> dv dm p + 1"
  proof (intro ballI impI)
    fix p n assume p: "p \<in> box w h - E" and n: "n \<in> box w h" "adjacent p n" "nonWall grid n"
    show "dv dm n \<le> dv dm p + 1"
    proof (cases "p = pos")
      case True with nb n show ?thesis by blast
    next
      case False with cl p n show ?thesis by blast
    qed
  qed
  from 1 2 3 4 show ?thesis unfolding mallInv_def by blast
qed

lemma mallLoop_correct:
  assumes gd: "\<forall>p. p \<in> box w h \<longleftrightarrow> cell_lookup grid p \<noteq> None"
  shows "mallInv grid w h (set q) dm \<Longrightarrow> set q \<subseteq> box w h
     \<Longrightarrow> \<exists>dm'. mallLoop grid w h q dm = Inr dm' \<and> mallInv grid w h {} dm'"
  using gd
proof (induction grid w h q dm rule: mallLoop.induct)
  case (1 grid w h dm)
  then show ?case by simp
next
  case (2 grid w h pos queue dm)
  from "2.prems"(2) have pb: "pos \<in> box w h" and qb: "set queue \<subseteq> box w h" by auto
  from "2.prems"(1) have inv: "mallInv grid w h (insert pos (set queue)) dm" by simp
  then have sh: "shape dm w h" by (simp add: mallInv_def)
  from shape_lookup [OF sh pb] have lk: "dist_lookup dm pos = Inr (Some (dv dm pos))" .
  from relaxAll_inv [OF pb "2.prems"(3) inv qb subset_refl] obtain dm' q' where
    a: "relaxAll grid w h (Some (dv dm pos)) pos mallDirections (dm, queue) = Inr (dm', q')"
    and i2: "mallInv grid w h (insert pos (set q')) dm'" and b2: "set q' \<subseteq> box w h"
    and p2: "dv dm' pos = dv dm pos"
    and n2: "\<forall>dir \<in> set mallDirections. (fst pos + fst dir, snd pos + snd dir) \<in> box w h
                \<longrightarrow> nonWall grid (fst pos + fst dir, snd pos + snd dir)
                \<longrightarrow> dv dm' (fst pos + fst dir, snd pos + snd dir) \<le> dv dm pos + 1"
    by blast
  have "\<forall>n \<in> box w h. adjacent pos n \<longrightarrow> nonWall grid n \<longrightarrow> dv dm' n \<le> dv dm' pos + 1"
  proof (intro ballI impI)
    fix n assume n: "n \<in> box w h" "adjacent pos n" "nonWall grid n"
    from adjacent_mallDir [OF n(2)] obtain dir where
      "dir \<in> set mallDirections" "n = (fst pos + fst dir, snd pos + snd dir)" by blast
    with n2 n p2 show "dv dm' n \<le> dv dm' pos + 1" by auto
  qed
  from mallInv_settle [OF i2 this] have inv': "mallInv grid w h (set q') dm'" .
  from "2.IH" [OF lk a refl inv' b2 "2.prems"(3)] lk a show ?case by simp
qed

lemma walk_bound:
  assumes inv: "mallInv grid w h {} dm"
    and gd: "\<forall>p. p \<in> box w h \<longleftrightarrow> cell_lookup grid p \<noteq> None"
  shows "mallWalk grid ps \<Longrightarrow> dv dm (last ps) \<le> enat (length ps - 1)"
proof (induction ps rule: rev_induct)
  case Nil
  then show ?case by (simp add: mallWalk_def)
next
  case (snoc u ps)
  note I = inv [unfolded mallInv_def]
  from I have mall: "\<forall>p \<in> box w h. isMall grid p \<longrightarrow> dv dm p = 0" by blast
  from I have cl: "\<forall>p \<in> box w h - {}. \<forall>n \<in> box w h. adjacent p n
        \<longrightarrow> nonWall grid n \<longrightarrow> dv dm n \<le> dv dm p + 1" by blast
  have inb: "p \<in> box w h" if "nonWall grid p" for p
  proof -
    from that have "cell_lookup grid p \<noteq> None" by (auto simp: nonWall_def split: option.splits)
    with gd show ?thesis by blast
  qed
  show ?case
  proof (cases "ps = []")
    case True
    with snoc.prems have "isMall grid u" by (simp add: mallWalk_def)
    with mall inb [of u] isMall_nonWall [of grid u] have "dv dm u = 0" by blast
    then show ?thesis by simp
  next
    case False
    with snoc.prems have w: "mallWalk grid ps" and a: "adjacent (last ps) u"
      and nu: "nonWall grid u" and nl: "nonWall grid (last ps)"
      by (auto simp: mallWalk_def successively_append_iff)
    from snoc.IH [OF w] have "dv dm (last ps) \<le> enat (length ps - 1)" .
    moreover from cl inb [OF nl] inb [OF nu] a nu have "dv dm u \<le> dv dm (last ps) + 1" by blast
    ultimately have "dv dm u \<le> enat (length ps - 1) + 1"
      by (meson add_right_mono order_trans)
    moreover have "enat (length ps - 1) + 1 = enat (length (ps @ [u]) - 1)"
      using False by (cases ps) (simp_all add: one_enat_def)
    ultimately show ?thesis by simp
  qed
qed

lemma mallInv_final:
  assumes inv: "mallInv grid w h {} dm"
    and gd: "\<forall>p. p \<in> box w h \<longleftrightarrow> cell_lookup grid p \<noteq> None"
    and p: "p \<in> box w h"
  shows "dist_lookup dm p = Inr (Some (dv dm p))"
    and "isMall grid p \<Longrightarrow> dv dm p = 0"
    and "dv dm p = enat k \<longleftrightarrow> hopsToMall grid p k \<and> (\<forall>j. hopsToMall grid p j \<longrightarrow> k \<le> j)"
    and "dv dm p = \<infinity> \<longleftrightarrow> (\<forall>k. \<not> hopsToMall grid p k)"
proof -
  note I = inv [unfolded mallInv_def]
  from I have sh: "shape dm w h" by blast
  from I have snd: "\<forall>p \<in> box w h. \<forall>k. dv dm p = enat k \<longrightarrow> hopsToMall grid p k" by blast
  from I have mall: "\<forall>p \<in> box w h. isMall grid p \<longrightarrow> dv dm p = 0" by blast
  show "dist_lookup dm p = Inr (Some (dv dm p))" using shape_lookup [OF sh p] .
  show "isMall grid p \<Longrightarrow> dv dm p = 0" using mall p by blast
  have le: "dv dm p \<le> enat j" if "hopsToMall grid p j" for j
  proof -
    from that obtain ps where "mallWalk grid ps" "last ps = p" "length ps = Suc j"
      unfolding hopsToMall_def by blast
    with walk_bound [OF inv gd, of ps] show ?thesis by simp
  qed
  show "dv dm p = enat k \<longleftrightarrow> hopsToMall grid p k \<and> (\<forall>j. hopsToMall grid p j \<longrightarrow> k \<le> j)"
  proof
    assume e: "dv dm p = enat k"
    with snd p have "hopsToMall grid p k" by blast
    moreover have "\<forall>j. hopsToMall grid p j \<longrightarrow> k \<le> j" using le e by auto
    ultimately show "hopsToMall grid p k \<and> (\<forall>j. hopsToMall grid p j \<longrightarrow> k \<le> j)" by blast
  next
    assume r: "hopsToMall grid p k \<and> (\<forall>j. hopsToMall grid p j \<longrightarrow> k \<le> j)"
    with le have "dv dm p \<le> enat k" by blast
    then obtain i where i: "dv dm p = enat i" "i \<le> k" by (cases "dv dm p") auto
    with snd p have "hopsToMall grid p i" by blast
    with r have "k \<le> i" by blast
    with i show "dv dm p = enat k" by simp
  qed
  show "dv dm p = \<infinity> \<longleftrightarrow> (\<forall>k. \<not> hopsToMall grid p k)"
  proof
    assume "dv dm p = \<infinity>"
    with le show "\<forall>k. \<not> hopsToMall grid p k" by fastforce
  next
    assume n: "\<forall>k. \<not> hopsToMall grid p k"
    show "dv dm p = \<infinity>"
    proof (cases "dv dm p")
      case (enat i)
      with snd p n show ?thesis by blast
    qed simp
  qed
qed

text \<open>
  The invariant of the seeding scan, with \<open>R\<close> the cells scanned so far: entries are 0 or
  \<open>Infinity\<close>, an entry 0 marks a queued \<open>MALL\<close> cell, and every scanned \<open>MALL\<close> cell holds 0.
\<close>

definition seedInv :: "Grid \<Rightarrow> int \<Rightarrow> int \<Rightarrow> Point set \<Rightarrow> DistMap \<Rightarrow> Point list \<Rightarrow> bool" where
  "seedInv grid w h R dm q =
     (shape dm w h \<and> set q \<subseteq> box w h
      \<and> (\<forall>p \<in> box w h. (dv dm p = 0 \<or> dv dm p = \<infinity>)
            \<and> (dv dm p = 0 \<longrightarrow> isMall grid p \<and> p \<in> set q)
            \<and> (p \<in> R \<longrightarrow> isMall grid p \<longrightarrow> dv dm p = 0)))"

lemma seedInvI:
  assumes "shape dm w h" and "set q \<subseteq> box w h"
    and "\<And>p. p \<in> box w h \<Longrightarrow> dv dm p = 0 \<or> dv dm p = \<infinity>"
    and "\<And>p. p \<in> box w h \<Longrightarrow> dv dm p = 0 \<Longrightarrow> isMall grid p \<and> p \<in> set q"
    and "\<And>p. p \<in> box w h \<Longrightarrow> p \<in> R \<Longrightarrow> isMall grid p \<Longrightarrow> dv dm p = 0"
  shows "seedInv grid w h R dm q"
  unfolding seedInv_def
proof (intro conjI ballI impI)
  show "shape dm w h" by (rule assms(1))
  show "set q \<subseteq> box w h" by (rule assms(2))
next
  fix p assume p: "p \<in> box w h"
  show "dv dm p = 0 \<or> dv dm p = \<infinity>" by (rule assms(3) [OF p])
  { assume "dv dm p = 0"
    from assms(4) [OF p this] show "isMall grid p" and "p \<in> set q" by (rule conjunct1, rule conjunct2) }
  { assume "p \<in> R" "isMall grid p"
    then show "dv dm p = 0" by (rule assms(5) [OF p]) }
qed

lemma seedInvD:
  assumes "seedInv grid w h R dm q"
  shows "shape dm w h" and "set q \<subseteq> box w h"
    and "p \<in> box w h \<Longrightarrow> dv dm p = 0 \<or> dv dm p = \<infinity>"
    and "p \<in> box w h \<Longrightarrow> dv dm p = 0 \<Longrightarrow> isMall grid p \<and> p \<in> set q"
    and "p \<in> box w h \<Longrightarrow> p \<in> R \<Longrightarrow> isMall grid p \<Longrightarrow> dv dm p = 0"
proof -
  note I = assms [unfolded seedInv_def]
  show "shape dm w h" by (rule I [THEN conjunct1])
  show "set q \<subseteq> box w h" by (rule I [THEN conjunct2, THEN conjunct1])
  note A = I [THEN conjunct2, THEN conjunct2, rule_format]
  { assume p: "p \<in> box w h"
    show "dv dm p = 0 \<or> dv dm p = \<infinity>" by (rule A [OF p, THEN conjunct1])
    { assume "dv dm p = 0"
      then show "isMall grid p \<and> p \<in> set q"
        by (rule A [OF p, THEN conjunct2, THEN conjunct1, rule_format]) }
    { assume "p \<in> R" "isMall grid p"
      then show "dv dm p = 0"
        by (rule A [OF p, THEN conjunct2, THEN conjunct2, rule_format]) } }
qed

lemma seedInv_region:
  assumes inv: "seedInv grid w h R dm q" and sub: "R' \<inter> box w h \<subseteq> R"
  shows "seedInv grid w h R' dm q"
proof (rule seedInvI)
  show "shape dm w h" "set q \<subseteq> box w h" by (rule seedInvD [OF inv])+
next
  fix p assume p: "p \<in> box w h"
  show "dv dm p = 0 \<or> dv dm p = \<infinity>" by (rule seedInvD(3) [OF inv p])
  show "dv dm p = 0 \<Longrightarrow> isMall grid p \<and> p \<in> set q" by (rule seedInvD(4) [OF inv p])
  show "p \<in> R' \<Longrightarrow> isMall grid p \<Longrightarrow> dv dm p = 0"
  proof -
    assume "p \<in> R'" and m: "isMall grid p"
    with p sub have "p \<in> R" by blast
    from seedInvD(5) [OF inv p this m] show ?thesis .
  qed
qed

lemma seedInv_mark:
  assumes inv: "seedInv grid w h R dm q" and p: "p \<in> box w h" and m: "isMall grid p"
  shows "seedInv grid w h (insert p R) (dist_update dm p 0) (q @ [p])"
proof (rule seedInvI)
  note sh = seedInvD(1) [OF inv]
  have val: "dv (dist_update dm p 0) r = (if r = p then 0 else dv dm r)" if "r \<in> box w h" for r
    using dv_update [OF sh p that] .
  show "shape (dist_update dm p 0) w h" using shape_update [OF sh p] .
  show "set (q @ [p]) \<subseteq> box w h" using seedInvD(2) [OF inv] p by simp
  fix r assume r: "r \<in> box w h"
  show "dv (dist_update dm p 0) r = 0 \<or> dv (dist_update dm p 0) r = \<infinity>"
    using val [OF r] seedInvD(3) [OF inv r] by (cases "r = p") simp_all
  show "dv (dist_update dm p 0) r = 0 \<Longrightarrow> isMall grid r \<and> r \<in> set (q @ [p])"
    using val [OF r] seedInvD(4) [OF inv r] m by (cases "r = p") simp_all
  show "r \<in> insert p R \<Longrightarrow> isMall grid r \<Longrightarrow> dv (dist_update dm p 0) r = 0"
    using val [OF r] seedInvD(5) [OF inv r] by (cases "r = p") simp_all
qed

lemma seedInv_skip:
  assumes inv: "seedInv grid w h R dm q" and m: "\<not> isMall grid p"
  shows "seedInv grid w h (insert p R) dm q"
proof (rule seedInvI)
  show "shape dm w h" "set q \<subseteq> box w h" by (rule seedInvD [OF inv])+
next
  fix r assume r: "r \<in> box w h"
  show "dv dm r = 0 \<or> dv dm r = \<infinity>" by (rule seedInvD(3) [OF inv r])
  show "dv dm r = 0 \<Longrightarrow> isMall grid r \<and> r \<in> set q" by (rule seedInvD(4) [OF inv r])
  show "r \<in> insert p R \<Longrightarrow> isMall grid r \<Longrightarrow> dv dm r = 0"
    using seedInvD(5) [OF inv r] m by (cases "r = p") simp_all
qed

lemma js_set_in_range:
  "0 \<le> x \<Longrightarrow> x < int (length row) \<Longrightarrow> js_set row x v = row[nat x := Some v]"
  by (simp add: js_set_def)

lemma seedRow_inv:
  assumes y: "0 \<le> y" "y < h"
  shows "seedInv grid w h R dm q \<Longrightarrow> 0 \<le> x \<Longrightarrow> x + int (length cells) \<le> w
     \<Longrightarrow> \<forall>i<length cells. cell_lookup grid (x + int i, y) = Some (cells ! i)
     \<Longrightarrow> \<exists>dm' q'. seedRow cells x y (dm, q) = (dm', q')
          \<and> seedInv grid w h (R \<union> {p. snd p = y \<and> x \<le> fst p \<and> fst p < x + int (length cells)})
               dm' q'"
proof (induction cells arbitrary: x dm q R)
  case Nil
  have "(R \<union> {p. snd p = y \<and> x \<le> fst p \<and> fst p < x + int (length ([] :: GridCell list))})
          \<inter> box w h \<subseteq> R" by auto
  from seedInv_region [OF Nil.prems(1) this] show ?case by simp
next
  case (Cons cell cells)
  let ?p = "(x, y)"
  from Cons.prems(2,3) y have pb: "?p \<in> box w h" by (simp add: box_iff)
  from Cons.prems(4) [rule_format, of 0] have c0: "cell_lookup grid ?p = Some cell" by simp
  have rest: "\<forall>i<length cells. cell_lookup grid (x + 1 + int i, y) = Some (cells ! i)"
  proof (intro allI impI)
    fix i assume "i < length cells"
    with Cons.prems(4) [rule_format, of "Suc i"]
    have "cell_lookup grid (x + int (Suc i), y) = Some ((cell # cells) ! Suc i)"
      by simp
    then show "cell_lookup grid (x + 1 + int i, y) = Some (cells ! i)" by (simp add: add.assoc)
  qed
  from Cons.prems(2,3) have x1: "0 \<le> x + 1" "x + 1 + int (length cells) \<le> w" by simp_all
  let ?R' = "R \<union> {p. snd p = y \<and> x \<le> fst p \<and> fst p < x + int (length (cell # cells))}"
  have reg: "?R' \<inter> box w h
       \<subseteq> insert ?p R \<union> {p. snd p = y \<and> x + 1 \<le> fst p \<and> fst p < x + 1 + int (length cells)}"
    by (auto simp: prod_eq_iff)
  show ?case
  proof (cases "type cell = MALL")
    case True
    with c0 have m: "isMall grid ?p" by (simp add: isMall_def)
    note sh = seedInvD(1) [OF Cons.prems(1)]
    from shape_row(1,2) [OF sh pb] pb have "x < int (length (dm ! nat y))"
      by (simp add: box_iff)
    with Cons.prems(2) have "js_set (dm ! nat y) x 0 = (dm ! nat y)[nat x := Some 0]"
      by (simp add: js_set_in_range)
    then have upd: "dm[nat y := js_set (dm ! nat y) x 0] = dist_update dm ?p 0"
      by (simp add: dist_update_def)
    from Cons.IH [OF seedInv_mark [OF Cons.prems(1) pb m] x1 rest] obtain dm' q' where
      r: "seedRow cells (x + 1) y (dist_update dm ?p 0, q @ [?p]) = (dm', q')"
      and i: "seedInv grid w h
            (insert ?p R \<union> {p. snd p = y \<and> x + 1 \<le> fst p \<and> fst p < x + 1 + int (length cells)})
            dm' q'"
      by blast
    from r True upd have "seedRow (cell # cells) x y (dm, q) = (dm', q')" by simp
    with seedInv_region [OF i reg] show ?thesis by blast
  next
    case False
    with c0 have m: "\<not> isMall grid ?p" by (simp add: isMall_def)
    from Cons.IH [OF seedInv_skip [OF Cons.prems(1) m] x1 rest] obtain dm' q' where
      r: "seedRow cells (x + 1) y (dm, q) = (dm', q')"
      and i: "seedInv grid w h
            (insert ?p R \<union> {p. snd p = y \<and> x + 1 \<le> fst p \<and> fst p < x + 1 + int (length cells)})
            dm' q'"
      by blast
    from r False have "seedRow (cell # cells) x y (dm, q) = (dm', q')" by simp
    with seedInv_region [OF i reg] show ?thesis by blast
  qed
qed

lemma seedGrid_inv:
  "seedInv grid w h R dm q \<Longrightarrow> 0 \<le> y \<Longrightarrow> y + int (length rows) \<le> h
   \<Longrightarrow> \<forall>j<length rows. int (length (rows ! j)) = w
          \<and> (\<forall>i<length (rows ! j). cell_lookup grid (int i, y + int j) = Some (rows ! j ! i))
   \<Longrightarrow> \<exists>dm' q'. seedGrid rows y (dm, q) = (dm', q')
        \<and> seedInv grid w h (R \<union> {p. y \<le> snd p \<and> snd p < y + int (length rows)}) dm' q'"
proof (induction rows arbitrary: y dm q R)
  case Nil
  have "(R \<union> {p. y \<le> snd p \<and> snd p < y + int (length ([] :: Grid))}) \<inter> box w h \<subseteq> R"
    by auto
  from seedInv_region [OF Nil.prems(1) this] show ?case by simp
next
  case (Cons row rows)
  from Cons.prems(2,3) have yh: "0 \<le> y" "y < h" by simp_all
  from Cons.prems(4) [rule_format, of 0] have len: "int (length row) = w"
    and cells: "\<forall>i<length row. cell_lookup grid (0 + int i, y) = Some (row ! i)"
    by simp_all
  from len have fit: "0 + int (length row) \<le> w" by simp
  from seedRow_inv [OF yh Cons.prems(1) order_refl fit cells] obtain dm1 q1 where
    r: "seedRow row 0 y (dm, q) = (dm1, q1)"
    and i1: "seedInv grid w h (R \<union> {p. snd p = y \<and> 0 \<le> fst p \<and> fst p < 0 + int (length row)})
               dm1 q1"
    by blast
  have rest: "\<forall>j<length rows. int (length (rows ! j)) = w
          \<and> (\<forall>i<length (rows ! j). cell_lookup grid (int i, y + 1 + int j) = Some (rows ! j ! i))"
  proof (intro allI impI)
    fix j assume "j < length rows"
    with Cons.prems(4) [rule_format, of "Suc j"]
    have "int (length ((row # rows) ! Suc j)) = w
          \<and> (\<forall>i<length ((row # rows) ! Suc j).
                cell_lookup grid (int i, y + int (Suc j)) = Some ((row # rows) ! Suc j ! i))"
      by simp
    then show "int (length (rows ! j)) = w
          \<and> (\<forall>i<length (rows ! j). cell_lookup grid (int i, y + 1 + int j) = Some (rows ! j ! i))"
      by (simp add: add.assoc)
  qed
  from Cons.prems(2,3) have y1: "0 \<le> y + 1" "y + 1 + int (length rows) \<le> h" by simp_all
  from Cons.IH [OF i1 y1 rest] obtain dm' q' where
    g: "seedGrid rows (y + 1) (dm1, q1) = (dm', q')"
    and i2: "seedInv grid w h
        (R \<union> {p. snd p = y \<and> 0 \<le> fst p \<and> fst p < 0 + int (length row)}
           \<union> {p. y + 1 \<le> snd p \<and> snd p < y + 1 + int (length rows)}) dm' q'"
    by blast
  have "(R \<union> {p. y \<le> snd p \<and> snd p < y + int (length (row # rows))}) \<inter> box w h
      \<subseteq> R \<union> {p. snd p = y \<and> 0 \<le> fst p \<and> fst p < 0 + int (length row)}
           \<union> {p. y + 1 \<le> snd p \<and> snd p < y + 1 + int (length rows)}"
  proof
    fix p assume "p \<in> (R \<union> {p. y \<le> snd p \<and> snd p < y + int (length (row # rows))}) \<inter> box w h"
    then have "p \<in> R \<or> (y \<le> snd p \<and> snd p < y + 1 + int (length rows))"
      and "0 \<le> fst p" "fst p < w" by (auto simp: box_iff)
    with len have "p \<in> R \<or> (snd p = y \<and> 0 \<le> fst p \<and> fst p < 0 + int (length row))
        \<or> (y + 1 \<le> snd p \<and> snd p < y + 1 + int (length rows))"
      by linarith
    then show "p \<in> R \<union> {p. snd p = y \<and> 0 \<le> fst p \<and> fst p < 0 + int (length row)}
           \<union> {p. y + 1 \<le> snd p \<and> snd p < y + 1 + int (length rows)}" by blast
  qed
  from seedInv_region [OF i2 this]
  have "seedInv grid w h (R \<union> {p. y \<le> snd p \<and> snd p < y + int (length (row # rows))}) dm' q'" .
  moreover have "seedGrid (row # rows) y (dm, q) = (dm', q')" using r g by simp
  ultimately show ?case by blast
qed

lemma seedInv_start:
  "seedInv grid (int w) (int h) {} (replicate h (replicate w (Some \<infinity>))) []"
proof -
  let ?dm = "replicate h (replicate w (Some (\<infinity> :: enat)))"
  have sh: "shape ?dm (int w) (int h)"
    unfolding shape_def by (simp add: set_replicate_conv_if)
  have inf: "dv ?dm p = \<infinity>" if "p \<in> box (int w) (int h)" for p
  proof -
    from that have b: "0 \<le> fst p" "0 \<le> snd p" "nat (snd p) < h" "nat (fst p) < w"
      by (auto simp: box_iff)
    then have "dist_lookup ?dm p = Inr (?dm ! nat (snd p) ! nat (fst p))"
      by (intro dist_lookup_nth) simp_all
    with b show ?thesis by (simp add: dv_def)
  qed
  show ?thesis
  proof (rule seedInvI)
    show "shape ?dm (int w) (int h)" by (rule sh)
    show "set [] \<subseteq> box (int w) (int h)" by simp
  next
    fix p assume p: "p \<in> box (int w) (int h)"
    from inf [OF p] show "dv ?dm p = 0 \<or> dv ?dm p = \<infinity>" by simp
    from inf [OF p] show "dv ?dm p = 0 \<Longrightarrow> isMall grid p \<and> p \<in> set []" by simp
    show "p \<in> {} \<Longrightarrow> isMall grid p \<Longrightarrow> dv ?dm p = 0" by simp
  qed
qed

lemma seedInv_mallInv:
  assumes inv: "seedInv grid w h R dm q" and cover: "box w h \<subseteq> R"
  shows "mallInv grid w h (set q) dm"
proof -
  note sh = seedInvD(1) [OF inv]
  have 2: "\<forall>p \<in> box w h. \<forall>k. dv dm p = enat k \<longrightarrow> hopsToMall grid p k"
  proof (intro ballI allI impI)
    fix p k assume p: "p \<in> box w h" and k: "dv dm p = enat k"
    with seedInvD(3) [OF inv p] have z: "dv dm p = 0" by auto
    with k have "k = 0" by (simp add: zero_enat_def)
    moreover from seedInvD(4) [OF inv p z] have "isMall grid p" by simp
    ultimately show "hopsToMall grid p k" by (simp add: hopsToMall_zero)
  qed
  have 3: "\<forall>p \<in> box w h. isMall grid p \<longrightarrow> dv dm p = 0"
  proof (intro ballI impI)
    fix p assume p: "p \<in> box w h" and m: "isMall grid p"
    from p cover have "p \<in> R" by blast
    from seedInvD(5) [OF inv p this m] show "dv dm p = 0" .
  qed
  have 4: "\<forall>p \<in> box w h - set q. \<forall>n \<in> box w h. adjacent p n \<longrightarrow> nonWall grid n
            \<longrightarrow> dv dm n \<le> dv dm p + 1"
  proof (intro ballI impI)
    fix p n assume p: "p \<in> box w h - set q"
    then have pb: "p \<in> box w h" and nq: "p \<notin> set q" by auto
    from seedInvD(4) [OF inv pb] nq have "dv dm p \<noteq> 0" by blast
    with seedInvD(3) [OF inv pb] have "dv dm p = \<infinity>" by blast
    then show "dv dm n \<le> dv dm p + 1" by simp
  qed
  from sh 2 3 4 show ?thesis unfolding mallInv_def by blast
qed

lemma rectangular_box:
  assumes "rectangular grid"
  shows "p \<in> box (gridWidth grid) (gridHeight grid) \<longleftrightarrow> cell_lookup grid p \<noteq> None"
proof
  assume "p \<in> box (gridWidth grid) (gridHeight grid)"
  with rectangular_total [OF assms] show "cell_lookup grid p \<noteq> None" by blast
next
  assume "cell_lookup grid p \<noteq> None"
  then obtain cell where "cell_lookup grid p = Some cell" by blast
  from cell_lookup_SomeD [OF this] obtain j i where
    ji: "j < length grid" "i < length (grid ! j)" "p = (int i, int j)" by blast
  then have "grid ! j \<in> set grid" by simp
  with assms have "length (grid ! j) = length (hd grid)" by (simp add: rectangular_def)
  moreover from ji have "gridWidth grid = int (length (hd grid))"
    by (cases grid) (auto simp: gridWidth_def)
  ultimately show "p \<in> box (gridWidth grid) (gridHeight grid)"
    using ji by (simp add: box_iff gridHeight_def)
qed

lemma generateMallDistanceMap_inv:
  assumes rect: "rectangular grid"
  shows "\<exists>dm. generateMallDistanceMap grid = Inr dm
           \<and> mallInv grid (gridWidth grid) (gridHeight grid) {} dm"
proof -
  let ?w = "case grid of [] \<Rightarrow> 0 | row0 # _ \<Rightarrow> length row0"
  let ?h = "length grid"
  have w: "gridWidth grid = int ?w" by (cases grid) (simp_all add: gridWidth_def)
  have h: "gridHeight grid = int ?h" by (simp add: gridHeight_def)
  have gd: "\<forall>p. p \<in> box (int ?w) (int ?h) \<longleftrightarrow> cell_lookup grid p \<noteq> None"
    using rectangular_box [OF rect] w h by simp
  have rows: "\<forall>j<length grid. int (length (grid ! j)) = int ?w
          \<and> (\<forall>i<length (grid ! j). cell_lookup grid (int i, 0 + int j) = Some (grid ! j ! i))"
  proof (intro allI impI conjI)
    fix j assume j: "j < length grid"
    then have "grid ! j \<in> set grid" by simp
    with rect have "length (grid ! j) = length (hd grid)" by (simp add: rectangular_def)
    moreover from j have "?w = length (hd grid)" by (cases grid) auto
    ultimately show "int (length (grid ! j)) = int ?w" by simp
  next
    fix j i assume "j < length grid" "i < length (grid ! j)"
    then show "cell_lookup grid (int i, 0 + int j) = Some (grid ! j ! i)"
      by (simp add: cell_lookup_nth)
  qed
  have fit: "0 + int (length grid) \<le> int ?h" by simp
  from seedGrid_inv [OF seedInv_start order_refl fit rows] obtain dm0 q0 where
    s: "seedGrid grid 0 (replicate ?h (replicate ?w (Some \<infinity>)), []) = (dm0, q0)"
    and i: "seedInv grid (int ?w) (int ?h)
              ({} \<union> {p. 0 \<le> snd p \<and> snd p < 0 + int (length grid)}) dm0 q0"
    by blast
  have "box (int ?w) (int ?h) \<subseteq> {} \<union> {p. 0 \<le> snd p \<and> snd p < 0 + int (length grid)}"
    by (auto simp: box_iff)
  from seedInv_mallInv [OF i this] have inv: "mallInv grid (int ?w) (int ?h) (set q0) dm0" .
  note qb = seedInvD(2) [OF i]
  from mallLoop_correct [OF gd inv qb] obtain dm where
    l: "mallLoop grid (int ?w) (int ?h) q0 dm0 = Inr dm"
    and f: "mallInv grid (int ?w) (int ?h) {} dm"
    by blast
  have "generateMallDistanceMap grid = mallLoop grid (int ?w) (int ?h) q0 dm0"
    unfolding generateMallDistanceMap_def Let_def s by simp
  with l have "generateMallDistanceMap grid = Inr dm" by simp
  moreover from f have "mallInv grid (gridWidth grid) (gridHeight grid) {} dm"
    unfolding w h .
  ultimately show ?thesis by blast
qed

lemma no_mall_no_hops: "\<forall>q. \<not> isMall grid q \<Longrightarrow> \<not> hopsToMall grid p k"
  unfolding hopsToMall_def mallWalk_def by blast

section \<open>Claims about the Distance Field Builder\<close>

text \<open>A lane with the mall entrance at one end and a wall across it.\<close>

definition walledLane :: Grid where
  "walledLane = [[plainCell MALL, plainCell PATH, plainCell WALL, plainCell PATH]]"

lemmas dist_defs = generateMallDistanceMap_def js_set_def dist_lookup_def js_index_def
  cell_lookup_def relax_def mallDirections_def one_enat_def zero_enat_def

lemma walledLane_map:
  "generateMallDistanceMap walledLane = Inr [[Some 0, Some 1, Some \<infinity>, Some \<infinity>]]"
  by (simp add: walledLane_def dist_defs cell_defs)

text \<open>
  Claim C2. On a rectangular grid \<open>generateMallDistanceMap\<close> returns a field of the
  grid's shape in which every \<open>MALL\<close> cell has distance 0 and every cell has the least
  number of hops of a walk from a \<open>MALL\<close> cell through cells that are not \<open>WALL\<close>, and
  \<open>Infinity\<close> exactly when no such walk exists; without any \<open>MALL\<close> cell every entry is
  \<open>Infinity\<close>.
\<close>

theorem distance_field_is_shortest_hop_count:
  assumes "rectangular grid"
  shows "\<exists>distMap. generateMallDistanceMap grid = Inr distMap
     \<and> length distMap = length grid
     \<and> (\<forall>row \<in> set distMap. int (length row) = gridWidth grid \<and> None \<notin> set row)
     \<and> (\<forall>p. cell_lookup grid p \<noteq> None \<longrightarrow>
          (\<exists>v. dist_lookup distMap p = Inr (Some v)
             \<and> (isMall grid p \<longrightarrow> v = 0)
             \<and> (\<forall>k. v = enat k \<longleftrightarrow>
                    hopsToMall grid p k \<and> (\<forall>j. hopsToMall grid p j \<longrightarrow> k \<le> j))
             \<and> (v = \<infinity> \<longleftrightarrow> (\<forall>k. \<not> hopsToMall grid p k))
             \<and> ((\<forall>q. \<not> isMall grid q) \<longrightarrow> v = \<infinity>)))"
proof -
  let ?w = "gridWidth grid" and ?h = "gridHeight grid"
  from generateMallDistanceMap_inv [OF assms] obtain dm where
    g: "generateMallDistanceMap grid = Inr dm" and inv: "mallInv grid ?w ?h {} dm"
    by blast
  have gd: "\<forall>p. p \<in> box ?w ?h \<longleftrightarrow> cell_lookup grid p \<noteq> None"
    using rectangular_box [OF assms] by blast
  from inv have sh: "shape dm ?w ?h" by (simp add: mallInv_def)
  then have 1: "length dm = length grid"
    and 2: "\<forall>row \<in> set dm. int (length row) = ?w \<and> None \<notin> set row"
    by (simp_all add: shape_def gridHeight_def)
  have 3: "\<forall>p. cell_lookup grid p \<noteq> None \<longrightarrow>
          (\<exists>v. dist_lookup dm p = Inr (Some v)
             \<and> (isMall grid p \<longrightarrow> v = 0)
             \<and> (\<forall>k. v = enat k \<longleftrightarrow>
                    hopsToMall grid p k \<and> (\<forall>j. hopsToMall grid p j \<longrightarrow> k \<le> j))
             \<and> (v = \<infinity> \<longleftrightarrow> (\<forall>k. \<not> hopsToMall grid p k))
             \<and> ((\<forall>q. \<not> isMall grid q) \<longrightarrow> v = \<infinity>))"
  proof (intro allI impI)
    fix p assume "cell_lookup grid p \<noteq> None"
    with gd have p: "p \<in> box ?w ?h" by blast
    note F = mallInv_final [OF inv gd p]
    have a: "dist_lookup dm p = Inr (Some (dv dm p))" by (rule F(1))
    have b: "isMall grid p \<longrightarrow> dv dm p = 0" using F(2) by blast
    have c: "\<forall>k. dv dm p = enat k \<longleftrightarrow>
                    hopsToMall grid p k \<and> (\<forall>j. hopsToMall grid p j \<longrightarrow> k \<le> j)"
      using F(3) by blast
    have d: "dv dm p = \<infinity> \<longleftrightarrow> (\<forall>k. \<not> hopsToMall grid p k)" by (rule F(4))
    have e: "(\<forall>q. \<not> isMall grid q) \<longrightarrow> dv dm p = \<infinity>"
      using d no_mall_no_hops by blast
    from a b c d e
    show "\<exists>v. dist_lookup dm p = Inr (Some v)
             \<and> (isMall grid p \<longrightarrow> v = 0)
             \<and> (\<forall>k. v = enat k \<longleftrightarrow>
                    hopsToMall grid p k \<and> (\<forall>j. hopsToMall grid p j \<longrightarrow> k \<le> j))
             \<and> (v = \<infinity> \<longleftrightarrow> (\<forall>k. \<not> hopsToMall grid p k))
             \<and> ((\<forall>q. \<not> isMall grid q) \<longrightarrow> v = \<infinity>)"
      by (intro exI [of _ "dv dm p"] conjI)
  qed
  from g 1 2 3 show ?thesis by blast
qed

theorem distance_field_is_shortest_hop_count_witness:
  "rectangular walledLane
   \<and> generateMallDistanceMap walledLane = Inr [[Some 0, Some 1, Some \<infinity>, Some \<infinity>]]
   \<and> isMall walledLane (0, 0)
   \<and> hopsToMall walledLane (1, 0) 1
   \<and> \<not> hopsToMall walledLane (1, 0) 0
   \<and> \<not> hopsToMall walledLane (3, 0) 2
   \<and> \<not> hopsToMall walledLane (2, 0) 2"
proof -
  let ?dm = "[[Some 0, Some 1, Some \<infinity>, Some (\<infinity> :: enat)]]"
  have r: "rectangular walledLane" by (simp add: rectangular_def walledLane_def)
  have c: "cell_lookup walledLane (0, 0) \<noteq> None" "cell_lookup walledLane (1, 0) \<noteq> None"
    "cell_lookup walledLane (2, 0) \<noteq> None" "cell_lookup walledLane (3, 0) \<noteq> None"
    by (simp_all add: walledLane_def cell_lookup_def js_index_def)
  have m: "isMall walledLane (0, 0)"
    by (simp add: isMall_def walledLane_def cell_lookup_def js_index_def cell_defs)
  have l: "dist_lookup ?dm (1, 0) = Inr (Some (enat 1))"
    "dist_lookup ?dm (2, 0) = Inr (Some \<infinity>)" "dist_lookup ?dm (3, 0) = Inr (Some \<infinity>)"
    by (simp_all add: dist_lookup_def js_index_def one_enat_def)
  from distance_field_is_shortest_hop_count [OF r] walledLane_map
  have all: "\<forall>p. cell_lookup walledLane p \<noteq> None \<longrightarrow>
          (\<exists>v. dist_lookup ?dm p = Inr (Some v)
             \<and> (isMall walledLane p \<longrightarrow> v = 0)
             \<and> (\<forall>k. v = enat k \<longleftrightarrow>
                    hopsToMall walledLane p k \<and> (\<forall>j. hopsToMall walledLane p j \<longrightarrow> k \<le> j))
             \<and> (v = \<infinity> \<longleftrightarrow> (\<forall>k. \<not> hopsToMall walledLane p k))
             \<and> ((\<forall>q. \<not> isMall walledLane q) \<longrightarrow> v = \<infinity>))"
    by auto
  from all [rule_format, OF c(2)] l(1)
  have 1: "hopsToMall walledLane (1, 0) 1 \<and> (\<forall>j. hopsToMall walledLane (1, 0) j \<longrightarrow> 1 \<le> j)"
    by auto
  then have 10: "\<not> hopsToMall walledLane (1, 0) 0" by fastforce
  from all [rule_format, OF c(4)] l(3) have 3: "\<not> hopsToMall walledLane (3, 0) 2" by auto
  from all [rule_format, OF c(3)] l(2) have 2: "\<not> hopsToMall walledLane (2, 0) 2" by auto
  from r walledLane_map m 1 10 2 3 show ?thesis by simp
qed

section \<open>Route Finder: the traversal rules and the routes they allow\<close>

text \<open>
  The reference the returned route is compared with, in the words of the spec's section
  on the Route Finder and on the raw fields of the cells. A direction of travel has its
  degrees (up 0, right 90, down 180, left 270), the neighbour it leads to, the side of a
  cell it faces and the direction opposed to it.
\<close>

datatype Direction = UP | DOWN | LEFT | RIGHT

fun degreesOf :: "Direction \<Rightarrow> int" where
  "degreesOf UP = 0"
| "degreesOf RIGHT = 90"
| "degreesOf DOWN = 180"
| "degreesOf LEFT = 270"

fun neighbour :: "Point \<Rightarrow> Direction \<Rightarrow> Point" where
  "neighbour p UP = (fst p, snd p - 1)"
| "neighbour p RIGHT = (fst p + 1, snd p)"
| "neighbour p DOWN = (fst p, snd p + 1)"
| "neighbour p LEFT = (fst p - 1, snd p)"

fun reverse :: "Direction \<Rightarrow> Direction" where
  "reverse UP = DOWN"
| "reverse RIGHT = LEFT"
| "reverse DOWN = UP"
| "reverse LEFT = RIGHT"

fun wallFacing :: "GridEdges \<Rightarrow> Direction \<Rightarrow> WallType option" where
  "wallFacing es UP = north es"
| "wallFacing es RIGHT = east es"
| "wallFacing es DOWN = south es"
| "wallFacing es LEFT = west es"

text \<open>
  A cell has an active flow rotation when it is a \<open>PATH\<close> cell with flow; it declares
  a solid wall towards a direction when its edge on that side is \<open>SOLID\<close>; it is mostly
  solid when it carries a mask more than half of whose sub-cells are 1.
\<close>

definition activeFlow :: "GridCell \<Rightarrow> bool" where
  "activeFlow cell = (type cell = PATH \<and> hasFlow cell)"

definition solidWall :: "GridCell \<Rightarrow> Direction \<Rightarrow> bool" where
  "solidWall cell d =
     (case edges cell of None \<Rightarrow> False | Some es \<Rightarrow> wallFacing es d = Some SOLID)"

definition mostlySolid :: "GridCell \<Rightarrow> bool" where
  "mostlySolid cell =
     (case subMask cell of
        None \<Rightarrow> False
      | Some m \<Rightarrow> length (concat m) < 2 * count_list (concat m) 1)"

text \<open>
  The five rules for a move in direction \<open>d\<close> from the cell \<open>cur\<close> at \<open>a\<close> to the cell
  \<open>dst\<close> at \<open>b\<close>. Rule 1: a current cell with an active flow is left in the direction
  of its rotation only, and under strict flow a \<open>PATH\<close> cell without flow is left only
  when it is the start. Rule 2, in force when \<open>oneWay\<close> holds: the destination has no
  active flow exactly opposite (180 degrees) to the direction of travel. Rule 3: neither
  the current cell's edge facing the travel nor the destination's opposite edge is solid.
  Rule 4: the destination is not mostly solid. Rule 5: the destination is an \<open>ENTRY\<close>,
  an \<open>EXIT\<close>, the target when a \<open>PARKING\<close> cell, or a \<open>PATH\<close> cell, which under strict
  flow must have flow.
\<close>

definition moveRules ::
  "bool \<Rightarrow> bool \<Rightarrow> Point \<Rightarrow> Point \<Rightarrow> Point \<Rightarrow> Point \<Rightarrow> Direction \<Rightarrow> GridCell \<Rightarrow> GridCell \<Rightarrow> bool"
where
  "moveRules oneWay strictFlow start target a b d cur dst =
     ((activeFlow cur \<longrightarrow> rotation cur = degreesOf d)
      \<and> (strictFlow \<and> type cur = PATH \<and> \<not> hasFlow cur \<longrightarrow> a = start)
      \<and> \<not> (oneWay \<and> activeFlow dst \<and> \<bar>rotation dst - degreesOf d\<bar> = 180)
      \<and> \<not> solidWall cur d \<and> \<not> solidWall dst (reverse d)
      \<and> \<not> mostlySolid dst
      \<and> (type dst = ENTRY \<or> type dst = EXIT \<or> (type dst = PARKING \<and> b = target)
           \<or> (type dst = PATH \<and> (strictFlow \<longrightarrow> hasFlow dst))))"

text \<open>
  A move between two cells of the grid that obeys the rules in some direction, and a
  route from start to target made of such moves. The spec states rule 2 without a
  condition: that is \<open>oneWay = True\<close>.
\<close>

definition ruleMove :: "bool \<Rightarrow> Grid \<Rightarrow> bool \<Rightarrow> Point \<Rightarrow> Point \<Rightarrow> Point \<Rightarrow> Point \<Rightarrow> bool" where
  "ruleMove oneWay grid strictFlow start target a b =
     (\<exists>d \<in> {UP, RIGHT, DOWN, LEFT}.
        b = neighbour a d
        \<and> (case cell_lookup grid a of
              None \<Rightarrow> False
            | Some cur \<Rightarrow>
                (case cell_lookup grid b of
                   None \<Rightarrow> False
                 | Some dst \<Rightarrow> moveRules oneWay strictFlow start target a b d cur dst)))"

definition ruleRoute :: "bool \<Rightarrow> Grid \<Rightarrow> bool \<Rightarrow> Point \<Rightarrow> Point \<Rightarrow> Point list \<Rightarrow> bool" where
  "ruleRoute oneWay grid strictFlow start target r =
     (r \<noteq> [] \<and> hd r = start \<and> last r = target
      \<and> successively (ruleMove oneWay grid strictFlow start target) r)"

text \<open>The entry of the code's \<open>directions\<close> table for a direction of travel.\<close>

fun tableEntry :: "Direction \<Rightarrow> dirspec" where
  "tableEntry UP = \<lparr>dx = 0, dy = -1, deg = 0, edge = North, oppEdge = South\<rparr>"
| "tableEntry RIGHT = \<lparr>dx = 1, dy = 0, deg = 90, edge = East, oppEdge = West\<rparr>"
| "tableEntry DOWN = \<lparr>dx = 0, dy = 1, deg = 180, edge = South, oppEdge = North\<rparr>"
| "tableEntry LEFT = \<lparr>dx = -1, dy = 0, deg = 270, edge = West, oppEdge = East\<rparr>"

lemma directions_table: "set directions = tableEntry ` {UP, RIGHT, DOWN, LEFT}"
  by (simp add: directions_def)

lemma tableEntry_step:
  "(fst a + dx (tableEntry d), snd a + dy (tableEntry d)) = neighbour a d"
  by (cases d) simp_all

lemma tableEntry_deg: "deg (tableEntry d) = degreesOf d"
  by (cases d) simp_all

lemma edgeSolid_facing: "edgeSolid c (edge (tableEntry d)) = solidWall c d"
  by (cases d) (simp_all add: edgeSolid_def solidWall_def split: option.splits)

lemma edgeSolid_reverse: "edgeSolid c (oppEdge (tableEntry d)) = solidWall c (reverse d)"
  by (cases d) (simp_all add: edgeSolid_def solidWall_def split: option.splits)

lemma count_ones: "length (filter (\<lambda>v. v = (1 :: int)) xs) = count_list xs 1"
  by (induction xs) auto

lemma subMaskBlocked_mostlySolid: "subMaskBlocked c = mostlySolid c"
proof -
  have "(int n < 2 * int k) = (n < 2 * k)" for n k :: nat by linarith
  then show ?thesis
    by (simp add: subMaskBlocked_def mostlySolid_def Let_def count_ones split: option.splits)
qed

lemma allowedDegrees_flow:
  "(allowedDegrees cur = None \<or> allowedDegrees cur = Some r) \<longleftrightarrow> (activeFlow cur \<longrightarrow> rotation cur = r)"
  by (auto simp: allowedDegrees_def activeFlow_def)

lemma isWalkable_types:
  "isWalkable dst b target s \<longleftrightarrow>
     (type dst = ENTRY \<or> type dst = EXIT \<or> (type dst = PARKING \<and> b = target)
      \<or> (type dst = PATH \<and> (s \<longrightarrow> hasFlow dst)))"
  by (auto simp: isWalkable_def)

lemma ruleMove_iff:
  "ruleMove oneWay grid strictFlow start target a b \<longleftrightarrow>
     (\<exists>d cur dst. b = neighbour a d \<and> cell_lookup grid a = Some cur
        \<and> cell_lookup grid b = Some dst
        \<and> moveRules oneWay strictFlow start target a b d cur dst)"
proof
  assume "ruleMove oneWay grid strictFlow start target a b"
  then obtain d where d: "b = neighbour a d"
    and c: "case cell_lookup grid a of None \<Rightarrow> False
            | Some cur \<Rightarrow> (case cell_lookup grid b of None \<Rightarrow> False
                 | Some dst \<Rightarrow> moveRules oneWay strictFlow start target a b d cur dst)"
    unfolding ruleMove_def by blast
  from c obtain cur where ca: "cell_lookup grid a = Some cur"
    by (cases "cell_lookup grid a") simp_all
  with c obtain dst where cb: "cell_lookup grid b = Some dst"
    by (cases "cell_lookup grid b") simp_all
  with c ca have "moveRules oneWay strictFlow start target a b d cur dst" by simp
  with d ca cb show "\<exists>d cur dst. b = neighbour a d \<and> cell_lookup grid a = Some cur
        \<and> cell_lookup grid b = Some dst
        \<and> moveRules oneWay strictFlow start target a b d cur dst" by blast
next
  assume "\<exists>d cur dst. b = neighbour a d \<and> cell_lookup grid a = Some cur
        \<and> cell_lookup grid b = Some dst
        \<and> moveRules oneWay strictFlow start target a b d cur dst"
  then obtain d cur dst where d: "b = neighbour a d" and ca: "cell_lookup grid a = Some cur"
    and cb: "cell_lookup grid b = Some dst"
    and m: "moveRules oneWay strictFlow start target a b d cur dst" by blast
  have "d \<in> {UP, RIGHT, DOWN, LEFT}" by (cases d) simp_all
  moreover from ca cb m
  have "case cell_lookup grid a of None \<Rightarrow> False
            | Some cur \<Rightarrow> (case cell_lookup grid b of None \<Rightarrow> False
                 | Some dst \<Rightarrow> moveRules oneWay strictFlow start target a b d cur dst)"
    by simp
  ultimately show "ruleMove oneWay grid strictFlow start target a b"
    unfolding ruleMove_def using d by blast
qed

lemma tableEntry_in: "tableEntry d \<in> set directions"
  by (cases d) (simp_all add: directions_def)

lemma ruleMove_accepted:
  assumes gd: "\<forall>p. p \<in> box w h \<longleftrightarrow> cell_lookup grid p \<noteq> None"
  shows "ruleMove s grid s start target a b \<longleftrightarrow>
     acceptedMove grid w h target s a b
     \<and> (\<forall>cur. cell_lookup grid a = Some cur \<longrightarrow> s \<and> type cur = PATH \<and> \<not> hasFlow cur
            \<longrightarrow> a = start)"
proof
  assume "ruleMove s grid s start target a b"
  then obtain d cur dst where
    b: "b = neighbour a d" and ca: "cell_lookup grid a = Some cur"
    and cb: "cell_lookup grid b = Some dst"
    and r1: "activeFlow cur \<longrightarrow> rotation cur = degreesOf d"
    and r1s: "s \<and> type cur = PATH \<and> \<not> hasFlow cur \<longrightarrow> a = start"
    and r2: "\<not> (s \<and> activeFlow dst \<and> \<bar>rotation dst - degreesOf d\<bar> = 180)"
    and r3: "\<not> solidWall cur d" "\<not> solidWall dst (reverse d)"
    and r4: "\<not> mostlySolid dst"
    and r5: "type dst = ENTRY \<or> type dst = EXIT \<or> (type dst = PARKING \<and> b = target)
             \<or> (type dst = PATH \<and> (s \<longrightarrow> hasFlow dst))"
    unfolding ruleMove_iff moveRules_def by blast
  from cb gd have inb: "b \<in> box w h" by (metis option.distinct(1))
  let ?dir = "tableEntry d"
  have "?dir \<in> set directions" by (rule tableEntry_in)
  moreover have "b = (fst a + dx ?dir, snd a + dy ?dir)" using b by (simp add: tableEntry_step)
  moreover have "allowedDegrees cur = None \<or> allowedDegrees cur = Some (deg ?dir)"
    using r1 by (simp add: allowedDegrees_flow tableEntry_deg)
  moreover have "\<not> (s \<and> type dst = PATH \<and> hasFlow dst \<and> \<bar>rotation dst - deg ?dir\<bar> = 180)"
    using r2 by (simp add: activeFlow_def tableEntry_deg)
  moreover have "\<not> edgeSolid cur (edge ?dir)" "\<not> edgeSolid dst (oppEdge ?dir)"
    using r3 by (simp_all add: edgeSolid_facing edgeSolid_reverse)
  moreover have "\<not> subMaskBlocked dst" using r4 by (simp add: subMaskBlocked_mostlySolid)
  moreover have "isWalkable dst b target s" using r5 by (simp add: isWalkable_types)
  ultimately have "acceptedMove grid w h target s a b"
    unfolding acceptedMove_iff using ca cb inb by blast
  moreover from ca r1s
  have "\<forall>c. cell_lookup grid a = Some c \<longrightarrow> s \<and> type c = PATH \<and> \<not> hasFlow c \<longrightarrow> a = start"
    by simp
  ultimately show "acceptedMove grid w h target s a b
     \<and> (\<forall>cur. cell_lookup grid a = Some cur \<longrightarrow> s \<and> type cur = PATH \<and> \<not> hasFlow cur
            \<longrightarrow> a = start)" by blast
next
  assume r: "acceptedMove grid w h target s a b
     \<and> (\<forall>cur. cell_lookup grid a = Some cur \<longrightarrow> s \<and> type cur = PATH \<and> \<not> hasFlow cur
            \<longrightarrow> a = start)"
  then obtain cur dst dir where
    dir: "dir \<in> set directions" and ca: "cell_lookup grid a = Some cur"
    and cb: "cell_lookup grid b = Some dst"
    and b: "b = (fst a + dx dir, snd a + dy dir)"
    and c1: "allowedDegrees cur = None \<or> allowedDegrees cur = Some (deg dir)"
    and c2: "\<not> (s \<and> type dst = PATH \<and> hasFlow dst \<and> \<bar>rotation dst - deg dir\<bar> = 180)"
    and c3: "\<not> edgeSolid cur (edge dir)" "\<not> edgeSolid dst (oppEdge dir)"
    and c4: "\<not> subMaskBlocked dst" and c5: "isWalkable dst b target s"
    unfolding acceptedMove_iff by blast
  from dir obtain d where d: "dir = tableEntry d" unfolding directions_table by blast
  have dset: "d \<in> {UP, RIGHT, DOWN, LEFT}" by (cases d) simp_all
  have "b = neighbour a d" using b d by (simp add: tableEntry_step)
  moreover have "activeFlow cur \<longrightarrow> rotation cur = degreesOf d"
    using c1 d by (simp add: allowedDegrees_flow tableEntry_deg)
  moreover have "s \<and> type cur = PATH \<and> \<not> hasFlow cur \<longrightarrow> a = start" using r ca by blast
  moreover have "\<not> (s \<and> activeFlow dst \<and> \<bar>rotation dst - degreesOf d\<bar> = 180)"
    using c2 d by (simp add: activeFlow_def tableEntry_deg)
  moreover have "\<not> solidWall cur d" "\<not> solidWall dst (reverse d)"
    using c3 d by (simp_all add: edgeSolid_facing edgeSolid_reverse)
  moreover have "\<not> mostlySolid dst" using c4 by (simp add: subMaskBlocked_mostlySolid)
  moreover have "type dst = ENTRY \<or> type dst = EXIT \<or> (type dst = PARKING \<and> b = target)
             \<or> (type dst = PATH \<and> (s \<longrightarrow> hasFlow dst))"
    using c5 by (simp add: isWalkable_types)
  ultimately show "ruleMove s grid s start target a b"
    unfolding ruleMove_iff moveRules_def using ca cb by blast
qed

lemma successively_imp:
  "successively P xs \<Longrightarrow> (\<And>x y. P x y \<Longrightarrow> Q x y) \<Longrightarrow> successively Q xs"
  by (induction xs rule: induct_list012) auto

lemma acceptedMove_dest_flow:
  assumes "acceptedMove grid w h t True a b" and "cell_lookup grid b = Some c" and "type c = PATH"
  shows "hasFlow c"
  using acceptedMove_strict [OF assms(1)] assms(2,3) by auto

lemma accepted_route_rules:
  assumes gd: "\<forall>p. p \<in> box w h \<longleftrightarrow> cell_lookup grid p \<noteq> None"
  shows "routeFrom (acceptedMove grid w h target s) start r
         \<longleftrightarrow> routeFrom (ruleMove s grid s start target) start r"
proof
  assume "routeFrom (ruleMove s grid s start target) start r"
  then show "routeFrom (acceptedMove grid w h target s) start r"
    unfolding routeFrom_def
    using successively_imp [of "ruleMove s grid s start target" r "acceptedMove grid w h target s"]
      ruleMove_accepted [OF gd]
    by blast
next
  let ?A = "acceptedMove grid w h target s" and ?R = "ruleMove s grid s start target"
  show "routeFrom ?A start r \<Longrightarrow> routeFrom ?R start r"
  proof (induction r rule: rev_induct)
    case Nil
    then show ?case by (simp add: routeFrom_def)
  next
    case (snoc u r)
    show ?case
    proof (cases "r = []")
      case True
      with snoc.prems show ?thesis by (simp add: routeFrom_def)
    next
      case False
      with snoc.prems have ra: "routeFrom ?A start r" and mv: "?A (last r) u"
        by (auto simp: routeFrom_def successively_append_iff)
      from snoc.IH [OF ra] have rr: "routeFrom ?R start r" .
      have "\<forall>cur. cell_lookup grid (last r) = Some cur \<longrightarrow> s \<and> type cur = PATH \<and> \<not> hasFlow cur
              \<longrightarrow> last r = start"
      proof (intro allI impI)
        fix cur assume c: "cell_lookup grid (last r) = Some cur"
          and f: "s \<and> type cur = PATH \<and> \<not> hasFlow cur"
        show "last r = start"
        proof (cases "length r = 1")
          case True
          with ra show ?thesis by (cases r) (auto simp: routeFrom_def)
        next
          case one: False
          from False have "0 < length r" by simp
          with one have two: "2 \<le> length r" by arith
          from routeFrom_butlast [OF ra two] have "?A (last (butlast r)) (last r)" by simp
          with f have "acceptedMove grid w h target True (last (butlast r)) (last r)" by simp
          from acceptedMove_dest_flow [OF this c] f show ?thesis by simp
        qed
      qed
      with mv ruleMove_accepted [OF gd, of s start target "last r" u]
      have "?R (last r) u" by blast
      from routeFrom_snoc [OF rr this] show ?thesis .
    qed
  qed
qed

lemma findPath_shortest_accepted_route:
  assumes "rectangular grid" and "cell_lookup grid start \<noteq> None"
  shows "\<exists>path. findPath grid start target strictMode = Inr path
     \<and> bfsPost (ruleMove strictMode grid strictMode start target) start target path
     \<and> (\<forall>i. Suc i < length path \<longrightarrow> adjacent (path ! i) (path ! Suc i))"
proof -
  let ?A = "acceptedMove grid (gridWidth grid) (gridHeight grid) target strictMode"
  let ?R = "ruleMove strictMode grid strictMode start target"
  have gd: "\<forall>p. p \<in> box (gridWidth grid) (gridHeight grid) \<longleftrightarrow> cell_lookup grid p \<noteq> None"
    using rectangular_box [OF assms(1)] by blast
  note eq = accepted_route_rules [OF gd, of target strictMode start]
  from findPath_complete [OF assms, of target strictMode] obtain path where
    fp: "findPath grid start target strictMode = Inr path" and post: "bfsPost ?A start target path"
    by blast
  from post have post': "bfsPost ?R start target path"
    unfolding bfsPost_def eq .
  have "\<forall>i. Suc i < length path \<longrightarrow> adjacent (path ! i) (path ! Suc i)"
  proof (cases "path = []")
    case True
    then show ?thesis by simp
  next
    case False
    with post have "successively ?A path" by (simp add: bfsPost_def routeFrom_def)
    then show ?thesis by (blast dest: successively_nth acceptedMove_adjacent)
  qed
  with fp post' show ?thesis by blast
qed

section \<open>Claim about the returned route\<close>

text \<open>A lane whose only path cell flows against the way in.\<close>

definition wrongWay :: Grid where
  "wrongWay = [[plainCell ENTRY, flowCell 270]]"

lemma wrongWay_route: "findPath wrongWay (0, 0) (1, 0) False = Inr [(0, 0), (1, 0)]"
  by (simp add: wrongWay_def path_defs cell_defs)

text \<open>
  Claim C1, as stated, fails for \<open>strictFlow = false\<close>. The spec's one-way rule holds for
  every move, the code applies it under strict mode only (line 118): on \<open>wrongWay\<close> the
  returned route enters the path cell eastwards against its westward flow, so its move
  breaks rule 2 and the route is not a legal one.
\<close>

theorem findPath_route_against_one_way_rule:
  "findPath wrongWay (0, 0) (1, 0) False = Inr [(0, 0), (1, 0)]
   \<and> \<not> ruleMove True wrongWay False (0, 0) (1, 0) (0, 0) (1, 0)
   \<and> \<not> ruleRoute True wrongWay False (0, 0) (1, 0) [(0, 0), (1, 0)]"
proof -
  have "\<not> ruleMove True wrongWay False (0, 0) (1, 0) (0, 0) (1, 0)"
    by (simp add: ruleMove_def moveRules_def wrongWay_def cell_lookup_def js_index_def cell_defs
          activeFlow_def)
  with wrongWay_route show ?thesis by (simp add: ruleRoute_def)
qed

text \<open>
  Claim C1, amended. On a rectangular grid and from a start cell of the grid, \<open>findPath\<close>
  returns (it raises nothing) either the empty sequence or a sequence that starts at the
  start, ends at the target, whose consecutive cells are orthogonally adjacent and joined
  by moves that obey the traversal rules, rule 2 being in force under
  \<open>strictFlow = true\<close> only, and that is no longer than any such route from start to
  target. It returns the empty sequence exactly when there is no such route. Under
  \<open>strictFlow = true\<close> these are the rules as the spec states them.
\<close>

theorem findPath_shortest_legal_route:
  assumes "rectangular grid" and "cell_lookup grid start \<noteq> None"
  shows "\<exists>path. findPath grid start target strictMode = Inr path
     \<and> (path = [] \<longleftrightarrow> (\<forall>r. \<not> ruleRoute strictMode grid strictMode start target r))
     \<and> (path \<noteq> [] \<longrightarrow>
          ruleRoute strictMode grid strictMode start target path
          \<and> (\<forall>i. Suc i < length path \<longrightarrow> adjacent (path ! i) (path ! Suc i))
          \<and> (\<forall>r. ruleRoute strictMode grid strictMode start target r
                \<longrightarrow> length path \<le> length r))"
proof -
  let ?R = "ruleMove strictMode grid strictMode start target"
  have lr: "ruleRoute strictMode grid strictMode start target r
            \<longleftrightarrow> routeFrom ?R start r \<and> last r = target"
    for r by (auto simp: ruleRoute_def routeFrom_def)
  from findPath_shortest_accepted_route [OF assms, of target strictMode] obtain path where
    fp: "findPath grid start target strictMode = Inr path" and post: "bfsPost ?R start target path"
    and adj: "\<forall>i. Suc i < length path \<longrightarrow> adjacent (path ! i) (path ! Suc i)"
    by blast
  show ?thesis
  proof (cases "path = []")
    case True
    with post have "\<forall>r. \<not> ruleRoute strictMode grid strictMode start target r"
      by (simp add: bfsPost_def lr)
    with fp True show ?thesis by simp
  next
    case False
    with post have r: "ruleRoute strictMode grid strictMode start target path"
      and m: "\<forall>r. ruleRoute strictMode grid strictMode start target r
                \<longrightarrow> length path \<le> length r"
      by (simp_all add: bfsPost_def lr)
    with fp False adj show ?thesis by blast
  qed
qed

theorem findPath_shortest_legal_route_witness:
  "rectangular lane \<and> cell_lookup lane (0, 0) \<noteq> None
   \<and> findPath lane (0, 0) (2, 0) True = Inr [(0, 0), (1, 0), (2, 0)]
   \<and> ruleRoute True lane True (0, 0) (2, 0) [(0, 0), (1, 0), (2, 0)]
   \<and> adjacent (0, 0) (1, 0) \<and> adjacent (1, 0) (2, 0)
   \<and> rectangular blockedLot \<and> cell_lookup blockedLot (0, 0) \<noteq> None
   \<and> findPath blockedLot (0, 0) (2, 0) True = Inr []
   \<and> \<not> ruleRoute True blockedLot True (0, 0) (2, 0) [(0, 0), (1, 0), (2, 0)]
   \<and> rectangular wrongWay \<and> cell_lookup wrongWay (0, 0) \<noteq> None
   \<and> findPath wrongWay (0, 0) (1, 0) False = Inr [(0, 0), (1, 0)]
   \<and> ruleRoute False wrongWay False (0, 0) (1, 0) [(0, 0), (1, 0)]"
proof -
  have a: "rectangular lane" "cell_lookup lane (0, 0) \<noteq> None"
    by (simp_all add: rectangular_def lane_def cell_lookup_def js_index_def)
  have b: "rectangular blockedLot" "cell_lookup blockedLot (0, 0) \<noteq> None"
    by (simp_all add: rectangular_def blockedLot_def cell_lookup_def js_index_def)
  have c: "rectangular wrongWay" "cell_lookup wrongWay (0, 0) \<noteq> None"
    by (simp_all add: rectangular_def wrongWay_def cell_lookup_def js_index_def)
  from findPath_shortest_legal_route [OF a, of "(2, 0)" True] lane_route
  have 1: "ruleRoute True lane True (0, 0) (2, 0) [(0, 0), (1, 0), (2, 0)]"
    "\<forall>i. Suc i < length [(0, 0), (1, 0), (2 :: int, 0 :: int)]
          \<longrightarrow> adjacent ([(0, 0), (1, 0), (2, 0)] ! i) ([(0, 0), (1, 0), (2, 0)] ! Suc i)"
    by auto
  from 1(2) [rule_format, of 0] 1(2) [rule_format, of 1]
  have 2: "adjacent (0, 0) (1, 0)" "adjacent (1, 0) (2, 0)" by simp_all
  from findPath_shortest_legal_route [OF b, of "(2, 0)" True] blockedLot_route
  have 3: "\<not> ruleRoute True blockedLot True (0, 0) (2, 0) [(0, 0), (1, 0), (2, 0)]" by auto
  from findPath_shortest_legal_route [OF c, of "(1, 0)" False] wrongWay_route
  have 4: "ruleRoute False wrongWay False (0, 0) (1, 0) [(0, 0), (1, 0)]" by auto
  from a b c lane_route blockedLot_route wrongWay_route 1(1) 2 3 4 show ?thesis by simp
qed

end
